theory Spec2Isabelle
  imports Complex_Main "HOL-Library.Stream" "HOL-Library.Multiset"
begin

section \<open>Data model of \<open>SimulatedAnnealing_landuse.cpp\<close>\<close>

text \<open>
  The land-use optimiser works on a grid of cell labels. The C++ enum \<open>CellType\<close> is a
  datatype, \<open>vector<vector<CellType>>\<close> is a list of rows, and a \<open>double\<close> or \<open>float\<close> value
  is the real number it stands for. The sentinel \<open>numeric_limits<double>::max()\<close> is the
  real number \<open>DBL_MAX\<close>. The sums and quotients of the Scorer are taken exactly. The
  operations of the Annealer on the temperature and in the acceptance test are not: what
  \<open>double\<close> subtraction, multiplication and division and the C library's \<open>exp\<close> return
  depends on the platform, and the model takes these four operations as parameters
  (\<open>fsub\<close>, \<open>fmul\<close>, \<open>fdiv\<close>, \<open>fexp\<close>), about which nothing is assumed unless a theorem
  says so. Their results are real numbers: the model has no infinity and no NaN.

  The compile-time constants \<open>ROWS\<close>, \<open>COLS\<close>, the global table \<open>agentPreferences\<close>, the C
  library's \<open>RAND_MAX\<close> and the four operations are collected in a record, so that every
  function below is defined for any choice of them. \<open>program_globals\<close> holds the constants
  of the program, with the \<open>RAND_MAX\<close> of glibc and with exact arithmetic in the place of
  the platform's operations; the small configurations further down are built from it.

  Reading a vector outside its bounds with \<open>operator[]\<close> is undefined behaviour in C++;
  the model reads with \<open>!\<close> and the theorems assume grids and distance maps of
  \<open>ROWS\<close> rows and \<open>COLS\<close> columns. \<open>map::at\<close> on a missing key throws
  \<open>std::out_of_range\<close>, which the model returns as an error value.
\<close>

datatype CellType =
  EMPTY | RESIDENTIAL | OFFICE | COM_SHOP | COM_CAFE | TRANSPORT | PUBLIC | LANDSCAPE | ROAD

type_synonym grid_t = "CellType list list"
type_synonym distanceMap_t = "real list list"
type_synonym distanceMaps_t = "CellType \<rightharpoonup> distanceMap_t"

datatype error = OutOfRange

record globals =
  ROWS :: nat
  COLS :: nat
  agentPreferences :: "CellType \<rightharpoonup> real list"
  RAND_MAX :: nat
  fsub :: "real \<Rightarrow> real \<Rightarrow> real"
  fmul :: "real \<Rightarrow> real \<Rightarrow> real"
  fdiv :: "real \<Rightarrow> real \<Rightarrow> real"
  fexp :: "real \<Rightarrow> real"

definition landUseTypes :: "CellType list" where
  "landUseTypes = [TRANSPORT, PUBLIC, LANDSCAPE, ROAD]"

definition agentTypes :: "CellType list" where
  "agentTypes = [RESIDENTIAL, OFFICE, COM_SHOP, COM_CAFE]"

definition program_globals :: globals where
  "program_globals =
     \<lparr> ROWS = 12, COLS = 12,
       agentPreferences =
         [RESIDENTIAL \<mapsto> [1, 2, 3, -5],
          OFFICE \<mapsto> [4, 1, 0, 2],
          COM_SHOP \<mapsto> [5, 3, 0, 3],
          COM_CAFE \<mapsto> [2, 4, 1, -1]],
       RAND_MAX = 2147483647,
       fsub = (\<lambda>a b. a - b), fmul = (\<lambda>a b. a * b), fdiv = (\<lambda>a b. a / b), fexp = exp \<rparr>"

definition DBL_MAX :: real where
  "DBL_MAX = 2 ^ 1024 - 2 ^ 971"

text \<open>\<open>find(agentTypes.begin(), agentTypes.end(), c) != agentTypes.end()\<close>\<close>

definition is_agent :: "CellType \<Rightarrow> bool" where
  "is_agent c \<longleftrightarrow> c \<in> set agentTypes"

text \<open>A grid or distance map of the dimensions the program allocates.\<close>

definition well_formed :: "globals \<Rightarrow> 'a list list \<Rightarrow> bool" where
  "well_formed G g \<longleftrightarrow> length g = ROWS G \<and> (\<forall>row \<in> set g. length row = COLS G)"

text \<open>The assignment \<open>v[x][y] = value\<close> to an element of a vector of vectors.\<close>

definition set_cell :: "'a list list \<Rightarrow> nat \<Rightarrow> nat \<Rightarrow> 'a \<Rightarrow> 'a list list" where
  "set_cell g x y v = g[x := (g ! x)[y := v]]"

section \<open>The DistanceField builder: \<open>computeDistanceMaps\<close>\<close>

text \<open>
  The queue holds \<open>pair<int, int>\<close> positions. The sum \<open>distanceMap[x][y] + 1.0\<close> is
  taken at the cell just popped, which holds a whole number of steps less than the number
  of cells; the theorems assume \<open>ROWS * COLS < 2 ^ 53\<close>, below which a \<open>double\<close> holds
  every such number and its successor exactly, so that the sum of the program is the sum
  of the real numbers.
\<close>

type_synonym cell = "int \<times> int"

definition dx :: "int list" where
  "dx = [-1, 0, 1, 0]"

definition dy :: "int list" where
  "dy = [0, 1, 0, -1]"

text \<open>\<open>distanceMap[x][y]\<close> and \<open>grid[x][y]\<close> at a position with \<open>int\<close> coordinates.\<close>

definition dist_at :: "distanceMap_t \<Rightarrow> cell \<Rightarrow> real" where
  "dist_at distanceMap c = distanceMap ! nat (fst c) ! nat (snd c)"

definition label_at :: "grid_t \<Rightarrow> cell \<Rightarrow> CellType" where
  "label_at g c = g ! nat (fst c) ! nat (snd c)"

text \<open>
  The body of the loops of lines 131 to 141, on the distance map and the queue: a cell
  bearing the label gets distance 0 and enters the queue.
\<close>

definition seed_cell ::
  "grid_t \<Rightarrow> CellType \<Rightarrow> nat \<Rightarrow> nat \<Rightarrow> distanceMap_t \<times> cell list \<Rightarrow> distanceMap_t \<times> cell list" where
  "seed_cell g landUseType i j dq =
     (if g ! i ! j = landUseType
      then (set_cell (fst dq) i j 0, snd dq @ [(int i, int j)])
      else dq)"

text \<open>Lines 127 to 141: the map filled with the sentinel, then the two loops.\<close>

definition seed_queue :: "globals \<Rightarrow> grid_t \<Rightarrow> CellType \<Rightarrow> distanceMap_t \<times> cell list" where
  "seed_queue G g landUseType =
     fold (\<lambda>i. fold (seed_cell g landUseType i) [0..<COLS G]) [0..<ROWS G]
       (replicate (ROWS G) (replicate (COLS G) DBL_MAX), [])"

text \<open>The body of the loop over \<open>dir\<close> (lines 155 to 165), for the cell \<open>(x, y)\<close> just popped.\<close>

definition relax ::
  "globals \<Rightarrow> cell \<Rightarrow> nat \<Rightarrow> distanceMap_t \<times> cell list \<Rightarrow> distanceMap_t \<times> cell list" where
  "relax G c dir dq =
     (let nx = fst c + dx ! dir;
          ny = snd c + dy ! dir
      in if nx \<ge> 0 \<and> nx < int (ROWS G) \<and> ny \<ge> 0 \<and> ny < int (COLS G)
         then (if dist_at (fst dq) (nx, ny) > dist_at (fst dq) c + 1
               then (set_cell (fst dq) (nat nx) (nat ny) (dist_at (fst dq) c + 1),
                     snd dq @ [(nx, ny)])
               else dq)
         else dq)"

text \<open>
  The loop \<open>while (!q.empty())\<close> of lines 144 to 167. \<open>None\<close> is a loop that never ends.
\<close>

partial_function (option) bfs_loop :: "globals \<Rightarrow> distanceMap_t \<times> cell list \<Rightarrow> distanceMap_t option" where
  "bfs_loop G dq =
     (case snd dq of
        [] \<Rightarrow> Some (fst dq)
      | c # q \<Rightarrow> bfs_loop G (fold (relax G c) [0..<4] (fst dq, q)))"

declare bfs_loop.simps [code]

text \<open>The body of the loop over the fixed-feature labels, and the loop (lines 125 to 170).\<close>

definition distance_map_of :: "globals \<Rightarrow> grid_t \<Rightarrow> CellType \<Rightarrow> distanceMap_t option" where
  "distance_map_of G g landUseType = bfs_loop G (seed_queue G g landUseType)"

primrec compute_maps ::
  "globals \<Rightarrow> grid_t \<Rightarrow> CellType list \<Rightarrow> distanceMaps_t \<Rightarrow> distanceMaps_t option" where
  "compute_maps G g [] distanceMaps = Some distanceMaps"
| "compute_maps G g (landUseType # rest) distanceMaps =
     (case distance_map_of G g landUseType of
        None \<Rightarrow> None
      | Some distanceMap \<Rightarrow> compute_maps G g rest (distanceMaps(landUseType \<mapsto> distanceMap)))"

definition computeDistanceMaps :: "globals \<Rightarrow> grid_t \<Rightarrow> distanceMaps_t option" where
  "computeDistanceMaps G g = compute_maps G g landUseTypes Map.empty"

text \<open>
  The notions of the specification: a position on the grid, a step between 4-connected
  positions, a walk of \<open>n\<close> steps that stays on the grid, and the least number of steps
  from a cell bearing the label.
\<close>

definition inside :: "globals \<Rightarrow> cell \<Rightarrow> bool" where
  "inside G c \<longleftrightarrow> 0 \<le> fst c \<and> fst c < int (ROWS G) \<and> 0 \<le> snd c \<and> snd c < int (COLS G)"

definition adjacent :: "cell \<Rightarrow> cell \<Rightarrow> bool" where
  "adjacent a b \<longleftrightarrow> \<bar>fst a - fst b\<bar> + \<bar>snd a - snd b\<bar> = 1"

primrec steps :: "globals \<Rightarrow> nat \<Rightarrow> cell \<Rightarrow> cell \<Rightarrow> bool" where
  "steps G 0 a b \<longleftrightarrow> a = b \<and> inside G a"
| "steps G (Suc n) a b \<longleftrightarrow> (\<exists>c. steps G n a c \<and> adjacent c b \<and> inside G b)"

definition source :: "globals \<Rightarrow> grid_t \<Rightarrow> CellType \<Rightarrow> cell \<Rightarrow> bool" where
  "source G g landUseType s \<longleftrightarrow> inside G s \<and> label_at g s = landUseType"

definition least_steps :: "globals \<Rightarrow> grid_t \<Rightarrow> CellType \<Rightarrow> cell \<Rightarrow> nat \<Rightarrow> bool" where
  "least_steps G g landUseType c d \<longleftrightarrow>
     (\<exists>s. source G g landUseType s \<and> steps G d s c) \<and>
     (\<forall>s n. source G g landUseType s \<and> steps G n s c \<longrightarrow> d \<le> n)"

text \<open>
  The distance map the builder is to produce for a label: of the grid's dimensions, with
  the least number of steps at every position if the label occurs, and the sentinel
  everywhere if it does not.
\<close>

definition distance_field_of :: "globals \<Rightarrow> grid_t \<Rightarrow> CellType \<Rightarrow> distanceMap_t \<Rightarrow> bool" where
  "distance_field_of G g landUseType distanceMap \<longleftrightarrow>
     well_formed G distanceMap \<and>
     (\<forall>c. inside G c \<longrightarrow>
        (if \<exists>s. source G g landUseType s
         then \<exists>d. dist_at distanceMap c = real d \<and> least_steps G g landUseType c d
         else dist_at distanceMap c = DBL_MAX) \<and>
        (label_at g c = landUseType \<longrightarrow> dist_at distanceMap c = 0))"

text \<open>
  What the search keeps true of the distance map and of the queue, while the cell \<open>x\<close> is
  being expanded and the directions in \<open>D\<close> are still to be tried: every entry is the
  sentinel or the length of a walk from a cell bearing the label, and less than the number
  of entries that are not the sentinel; cells bearing the label have distance 0; a step
  from a reached cell raises the distance by at most one, unless the cell is in the queue
  or the step is one still to be tried; the queue holds reached cells of the grid.
\<close>

definition reached_count :: "distanceMap_t \<Rightarrow> nat" where
  "reached_count distanceMap =
     sum_list (map (\<lambda>v. if v = DBL_MAX then 0 else 1) (concat distanceMap))"

definition bfs_inv ::
  "globals \<Rightarrow> grid_t \<Rightarrow> CellType \<Rightarrow> cell \<Rightarrow> nat set \<Rightarrow> distanceMap_t \<times> cell list \<Rightarrow> bool" where
  "bfs_inv G g landUseType x D dq \<longleftrightarrow>
     well_formed G (fst dq) \<and>
     (\<forall>c. inside G c \<longrightarrow> dist_at (fst dq) c = DBL_MAX \<or>
        (\<exists>n s. dist_at (fst dq) c = real n \<and> n < reached_count (fst dq) \<and>
               source G g landUseType s \<and> steps G n s c)) \<and>
     (\<forall>s. source G g landUseType s \<longrightarrow> dist_at (fst dq) s = 0) \<and>
     (\<forall>c c'. inside G c \<and> inside G c' \<and> adjacent c c' \<and> dist_at (fst dq) c \<noteq> DBL_MAX \<longrightarrow>
        dist_at (fst dq) c' \<le> dist_at (fst dq) c + 1 \<or> c \<in> set (snd dq) \<or>
        (c = x \<and> (\<exists>d \<in> D. c' = (fst x + dx ! d, snd x + dy ! d)))) \<and>
     (\<forall>c \<in> set (snd dq). inside G c \<and> dist_at (fst dq) c \<noteq> DBL_MAX) \<and>
     (D \<noteq> {} \<longrightarrow> inside G x \<and> dist_at (fst dq) x \<noteq> DBL_MAX) \<and> D \<subseteq> {..<4}"

text \<open>The measure that the search decreases.\<close>

definition weight :: "globals \<Rightarrow> real \<Rightarrow> nat" where
  "weight G v = (if v = DBL_MAX then Suc (ROWS G * COLS G) else nat \<lfloor>v\<rfloor>)"

definition total_weight :: "globals \<Rightarrow> distanceMap_t \<Rightarrow> nat" where
  "total_weight G distanceMap = sum_list (map (weight G) (concat distanceMap))"

text \<open>
  What the two loops of lines 131 to 141 keep true when they stand at row \<open>m\<close> and column
  \<open>n\<close>: the cells already visited that bear the label have distance 0 and are in the queue,
  every other cell holds the sentinel.
\<close>

definition seeded :: "nat \<Rightarrow> nat \<Rightarrow> cell \<Rightarrow> bool" where
  "seeded m n c \<longleftrightarrow> nat (fst c) < m \<or> (nat (fst c) = m \<and> nat (snd c) < n)"

definition seed_inv ::
  "globals \<Rightarrow> grid_t \<Rightarrow> CellType \<Rightarrow> nat \<Rightarrow> nat \<Rightarrow> distanceMap_t \<times> cell list \<Rightarrow> bool" where
  "seed_inv G g landUseType m n dq \<longleftrightarrow>
     well_formed G (fst dq) \<and>
     (\<forall>c. inside G c \<longrightarrow>
        dist_at (fst dq) c = (if seeded m n c \<and> label_at g c = landUseType then 0 else DBL_MAX)) \<and>
     (\<forall>c. c \<in> set (snd dq) \<longleftrightarrow> inside G c \<and> seeded m n c \<and> label_at g c = landUseType)"

text \<open>A grid of five rows and columns whose only fixed feature is a transport cell at (2,2).\<close>

definition square_globals :: globals where
  "square_globals = program_globals\<lparr>ROWS := 5, COLS := 5\<rparr>"

definition square_grid :: grid_t where
  "square_grid =
     [[RESIDENTIAL, RESIDENTIAL, RESIDENTIAL, RESIDENTIAL, RESIDENTIAL],
      [RESIDENTIAL, RESIDENTIAL, RESIDENTIAL, RESIDENTIAL, RESIDENTIAL],
      [RESIDENTIAL, RESIDENTIAL, TRANSPORT, RESIDENTIAL, RESIDENTIAL],
      [RESIDENTIAL, RESIDENTIAL, RESIDENTIAL, RESIDENTIAL, RESIDENTIAL],
      [RESIDENTIAL, RESIDENTIAL, RESIDENTIAL, RESIDENTIAL, RESIDENTIAL]]"

section \<open>The Scorer: \<open>calculateScore\<close>\<close>

text \<open>A counted \<open>for\<close> loop whose body may throw: the first error ends the loop.\<close>

primrec for_loop :: "nat list \<Rightarrow> (nat \<Rightarrow> 'a \<Rightarrow> error + 'a) \<Rightarrow> 'a \<Rightarrow> error + 'a" where
  "for_loop [] body acc = Inr acc"
| "for_loop (i # is) body acc =
     (case body i acc of Inl e \<Rightarrow> Inl e | Inr acc' \<Rightarrow> for_loop is body acc')"

text \<open>
  \<open>agentPreferences[agentCell]\<close>: \<open>operator[]\<close> of a \<open>std::map\<close> yields the stored vector, or
  a new empty one for a key that is absent.
\<close>

definition preferences_of :: "globals \<Rightarrow> CellType \<Rightarrow> real list" where
  "preferences_of G agentCell =
     (case agentPreferences G agentCell of None \<Rightarrow> [] | Some v \<Rightarrow> v)"

text \<open>The body of the loop over \<open>k\<close> (lines 195 to 207).\<close>

definition score_term ::
  "distanceMaps_t \<Rightarrow> real list \<Rightarrow> nat \<Rightarrow> nat \<Rightarrow> nat \<Rightarrow> real \<Rightarrow> error + real" where
  "score_term distanceMaps preferences i j k agentScore =
     (let landUseType = landUseTypes ! k;
          preference = preferences ! k
      in case distanceMaps landUseType of
           None \<Rightarrow> Inl OutOfRange
         | Some distanceMap \<Rightarrow>
             (let distance = distanceMap ! i ! j
              in if distance > 0 \<and> distance < DBL_MAX
                 then Inr (agentScore + preference / distance)
                 else Inr agentScore))"

text \<open>The body of the loop over \<open>j\<close> (lines 185 to 209).\<close>

definition score_cell ::
  "globals \<Rightarrow> grid_t \<Rightarrow> distanceMaps_t \<Rightarrow> nat \<Rightarrow> nat \<Rightarrow> real \<Rightarrow> error + real" where
  "score_cell G g distanceMaps i j totalScore =
     (let agentCell = g ! i ! j
      in if \<not> is_agent agentCell then Inr totalScore
         else case for_loop [0..<length landUseTypes]
                     (score_term distanceMaps (preferences_of G agentCell) i j) 0 of
                Inl e \<Rightarrow> Inl e
              | Inr agentScore \<Rightarrow> Inr (totalScore + agentScore))"

definition calculateScore :: "globals \<Rightarrow> grid_t \<Rightarrow> distanceMaps_t \<Rightarrow> error + real" where
  "calculateScore G g distanceMaps =
     for_loop [0..<ROWS G]
       (\<lambda>i. for_loop [0..<COLS G] (score_cell G g distanceMaps i)) 0"



text \<open>
  A distance-field collection as the data model has it: one map of the grid's dimensions
  for each fixed-feature label, each entry a non-negative distance or the sentinel.
\<close>

definition distance_fields :: "globals \<Rightarrow> distanceMaps_t \<Rightarrow> bool" where
  "distance_fields G distanceMaps \<longleftrightarrow>
     (\<forall>lu \<in> set landUseTypes. \<exists>dm. distanceMaps lu = Some dm \<and> well_formed G dm \<and>
        (\<forall>row \<in> set dm. \<forall>d \<in> set row. 0 \<le> d \<and> d \<le> DBL_MAX))"

text \<open>Every agent label on the grid has one weight for each fixed-feature label.\<close>

definition preferences_cover :: "globals \<Rightarrow> grid_t \<Rightarrow> bool" where
  "preferences_cover G g \<longleftrightarrow>
     (\<forall>row \<in> set g. \<forall>c \<in> set row. is_agent c \<longrightarrow>
        (\<exists>w. agentPreferences G c = Some w \<and> length w = length landUseTypes))"

section \<open>The Annealer: \<open>optimiseGrid\<close>\<close>

text \<open>
  \<open>rand()\<close> reads a global generator. The model passes the generator explicitly, as the
  stream of the values the calls to \<open>rand()\<close> will return, each between 0 and \<open>RAND_MAX\<close>.
\<close>

type_synonym rng = "nat stream"

definition rand :: "rng \<Rightarrow> nat \<times> rng" where
  "rand s = (shd s, stl s)"

text \<open>
  The two \<open>do \<dots> while\<close> loops of lines 246 to 257: draw a row and a column until the cell
  there holds an agent label. The loop need not end; \<open>None\<close> is a run that never leaves it.
\<close>

partial_function (option) pick_agent :: "globals \<Rightarrow> grid_t \<Rightarrow> rng \<Rightarrow> ((nat \<times> nat) \<times> rng) option" where
  "pick_agent G g s =
     (let x = fst (rand s) mod ROWS G;
          s1 = snd (rand s);
          y = fst (rand s1) mod COLS G;
          s2 = snd (rand s1)
      in if is_agent (g ! x ! y) then Some ((x, y), s2) else pick_agent G g s2)"

declare pick_agent.simps [code]

text \<open>\<open>swap(newGrid[x1][y1], newGrid[x2][y2])\<close>\<close>

definition swap_cells :: "grid_t \<Rightarrow> nat \<times> nat \<Rightarrow> nat \<times> nat \<Rightarrow> grid_t" where
  "swap_cells newGrid p1 p2 =
     (let tmp = newGrid ! fst p1 ! snd p1;
          newGrid1 = set_cell newGrid (fst p1) (snd p1) (newGrid ! fst p2 ! snd p2)
      in set_cell newGrid1 (fst p2) (snd p2) tmp)"

text \<open>
  The local variables of \<open>optimiseGrid\<close> that the loop changes. The log lines written every
  100 iterations and the clock they read change none of them and are left out.
\<close>

record anneal_state =
  grid :: grid_t
  currentScore :: real
  bestGrid :: grid_t
  bestScore :: real
  temperature :: real
  iteration :: nat

text \<open>
  The acceptance test of line 276. \<open>||\<close> evaluates its right operand, and so calls
  \<open>rand()\<close>, only when \<open>deltaScore > 0\<close> is false. The result is the verdict and the
  generator left behind.
\<close>

definition accept_move :: "globals \<Rightarrow> real \<Rightarrow> real \<Rightarrow> rng \<Rightarrow> bool \<times> rng" where
  "accept_move G deltaScore temp s =
     (if deltaScore > 0 then (True, s)
      else (fexp G (fdiv G deltaScore temp) > fdiv G (real (fst (rand s))) (real (RAND_MAX G)),
            snd (rand s)))"

text \<open>Lines 278 to 285, run when the candidate is accepted.\<close>

definition accept_update :: "anneal_state \<Rightarrow> grid_t \<Rightarrow> real \<Rightarrow> anneal_state" where
  "accept_update st newGrid newScore =
     (let st1 = st\<lparr>grid := newGrid, currentScore := newScore\<rparr>
      in if currentScore st1 > bestScore st1
         then st1\<lparr>bestGrid := grid st1, bestScore := currentScore st1\<rparr>
         else st1)"

text \<open>Lines 301 and 302: \<open>iteration++; temperature *= 1 - coolingRate;\<close>\<close>

definition cool :: "globals \<Rightarrow> real \<Rightarrow> anneal_state \<Rightarrow> anneal_state" where
  "cool G coolingRate st =
     st\<lparr>iteration := iteration st + 1,
        temperature := fmul G (temperature st) (fsub G 1 coolingRate)\<rparr>"

text \<open>
  One run of the body of the \<open>while\<close> loop (lines 241 to 302). \<open>None\<close>: a selection loop
  never ends; \<open>Some (Inl e)\<close>: \<open>calculateScore\<close> throws.
\<close>

definition loop_body ::
  "globals \<Rightarrow> distanceMaps_t \<Rightarrow> real \<Rightarrow> anneal_state \<Rightarrow> rng \<Rightarrow> (error + anneal_state \<times> rng) option" where
  "loop_body G distanceMaps coolingRate st s =
     (case pick_agent G (grid st) s of
        None \<Rightarrow> None
      | Some (p1, s1) \<Rightarrow>
          (case pick_agent G (grid st) s1 of
             None \<Rightarrow> None
           | Some (p2, s2) \<Rightarrow>
               (let newGrid = swap_cells (grid st) p1 p2
                in case calculateScore G newGrid distanceMaps of
                     Inl e \<Rightarrow> Some (Inl e)
                   | Inr newScore \<Rightarrow>
                       (let deltaScore = fsub G newScore (currentScore st);
                            verdict = accept_move G deltaScore (temperature st) s2;
                            st1 = (if fst verdict then accept_update st newGrid newScore else st)
                        in Some (Inr (cool G coolingRate st1, snd verdict))))))"

text \<open>The \<open>while (temperature > cooldown)\<close> loop.\<close>

partial_function (option) anneal_loop ::
  "globals \<Rightarrow> distanceMaps_t \<Rightarrow> real \<Rightarrow> real \<Rightarrow> anneal_state \<times> rng \<Rightarrow> (error + anneal_state \<times> rng) option" where
  "anneal_loop G distanceMaps cooldown coolingRate sr =
     (if temperature (fst sr) > cooldown
      then (case loop_body G distanceMaps coolingRate (fst sr) (snd sr) of
              None \<Rightarrow> None
            | Some (Inl e) \<Rightarrow> Some (Inl e)
            | Some (Inr sr') \<Rightarrow> anneal_loop G distanceMaps cooldown coolingRate sr')
      else Some (Inr sr))"

declare anneal_loop.simps [code]

text \<open>The state before the first iteration (lines 224 to 231).\<close>

definition initial_state :: "grid_t \<Rightarrow> real \<Rightarrow> real \<Rightarrow> anneal_state" where
  "initial_state g score temp =
     \<lparr>grid = g, currentScore = score, bestGrid = g, bestScore = score,
      temperature = temp, iteration = 0\<rparr>"

text \<open>
  \<open>optimiseGrid\<close> changes its argument \<open>grid\<close> in place and the global generator; the model
  returns both.
\<close>

definition optimiseGrid ::
  "globals \<Rightarrow> grid_t \<Rightarrow> distanceMaps_t \<Rightarrow> real \<Rightarrow> real \<Rightarrow> real \<Rightarrow> rng \<Rightarrow> (error + grid_t \<times> rng) option" where
  "optimiseGrid G g distanceMaps temp cooldown coolingRate s =
     (case calculateScore G g distanceMaps of
        Inl e \<Rightarrow> Some (Inl e)
      | Inr score \<Rightarrow>
          (case anneal_loop G distanceMaps cooldown coolingRate (initial_state g score temp, s) of
             None \<Rightarrow> None
           | Some (Inl e) \<Rightarrow> Some (Inl e)
           | Some (Inr (st, s')) \<Rightarrow> Some (Inr (bestGrid st, s'))))"

text \<open>
  The state after \<open>n\<close> iterations of the loop, if the loop runs that many and none of them
  throws or hangs.
\<close>

fun after_iterations ::
  "globals \<Rightarrow> distanceMaps_t \<Rightarrow> real \<Rightarrow> real \<Rightarrow> nat \<Rightarrow> anneal_state \<times> rng \<Rightarrow> (anneal_state \<times> rng) option" where
  "after_iterations G distanceMaps cooldown coolingRate 0 sr = Some sr"
| "after_iterations G distanceMaps cooldown coolingRate (Suc n) sr =
     (if temperature (fst sr) > cooldown
      then (case loop_body G distanceMaps coolingRate (fst sr) (snd sr) of
              Some (Inr sr') \<Rightarrow> after_iterations G distanceMaps cooldown coolingRate n sr'
            | _ \<Rightarrow> None)
      else None)"

section \<open>Invariants of the run\<close>

text \<open>
  What every working grid and every best-grid snapshot keeps of the grid \<open>g0\<close> the run
  started from: the dimensions, the labels as a multiset, the positions that hold agent
  labels, and the label of every position that holds none.
\<close>

definition grid_inv :: "globals \<Rightarrow> grid_t \<Rightarrow> grid_t \<Rightarrow> bool" where
  "grid_inv G g0 g \<longleftrightarrow>
     well_formed G g \<and> mset (concat g) = mset (concat g0) \<and>
     (\<forall>i < ROWS G. \<forall>j < COLS G.
        (is_agent (g ! i ! j) \<longleftrightarrow> is_agent (g0 ! i ! j)) \<and>
        (\<not> is_agent (g0 ! i ! j) \<longrightarrow> g ! i ! j = g0 ! i ! j))"

definition state_inv :: "globals \<Rightarrow> grid_t \<Rightarrow> anneal_state \<Rightarrow> bool" where
  "state_inv G g0 st \<longleftrightarrow> grid_inv G g0 (grid st) \<and> grid_inv G g0 (bestGrid st)"

text \<open>The agent labels on a grid, as a multiset.\<close>

definition agent_labels :: "grid_t \<Rightarrow> CellType multiset" where
  "agent_labels g = filter_mset is_agent (mset (concat g))"

text \<open>
  The temperature after \<open>n\<close> cooling steps, the number of steps that exact arithmetic
  takes to bring \<open>temp\<close> down to \<open>cooldown\<close>, and the condition that every selection loop the
  run can start comes to an end.
\<close>

definition cooled :: "globals \<Rightarrow> real \<Rightarrow> nat \<Rightarrow> real \<Rightarrow> real" where
  "cooled G coolingRate n temp = ((\<lambda>t. fmul G t (fsub G 1 coolingRate)) ^^ n) temp"

definition iterations_needed :: "real \<Rightarrow> real \<Rightarrow> real \<Rightarrow> nat" where
  "iterations_needed temp cooldown coolingRate =
     nat \<lceil>ln (cooldown / temp) / ln (1 - coolingRate)\<rceil>"

definition selection_returns :: "globals \<Rightarrow> grid_t \<Rightarrow> rng \<Rightarrow> bool" where
  "selection_returns G g s \<longleftrightarrow> (\<forall>k. pick_agent G g (sdrop k s) \<noteq> None)"


section \<open>Small configurations\<close>

text \<open>
  A street of four cells: a road cell, an empty cell, a residence and an office, with the
  distances to the road cell.
\<close>

definition street_globals :: globals where
  "street_globals = program_globals\<lparr>ROWS := 1, COLS := 4\<rparr>"

definition street_grid :: grid_t where
  "street_grid = [[ROAD, EMPTY, RESIDENTIAL, OFFICE]]"

definition street_maps :: distanceMaps_t where
  "street_maps =
     [TRANSPORT \<mapsto> [[DBL_MAX, DBL_MAX, DBL_MAX, DBL_MAX]],
      PUBLIC \<mapsto> [[DBL_MAX, DBL_MAX, DBL_MAX, DBL_MAX]],
      LANDSCAPE \<mapsto> [[DBL_MAX, DBL_MAX, DBL_MAX, DBL_MAX]],
      ROAD \<mapsto> [[0, 1, 2, 3]]]"

text \<open>A generator whose first four values select the cells (0,2) and (0,3).\<close>

definition street_rng :: rng where
  "street_rng = 0 ## 2 ## 0 ## 3 ## sconst 0"

definition street_start :: anneal_state where
  "street_start = initial_state street_grid (- 11 / 6) 2"

definition street_swapped :: anneal_state where
  "street_swapped =
     \<lparr>grid = [[ROAD, EMPTY, OFFICE, RESIDENTIAL]], currentScore = - 2 / 3,
      bestGrid = [[ROAD, EMPTY, OFFICE, RESIDENTIAL]], bestScore = - 2 / 3,
      temperature = 1, iteration = 1\<rparr>"

text \<open>
  A row of two agents and no fixed feature, so that every distance is the sentinel and
  every grid scores 0.
\<close>

definition pair_globals :: globals where
  "pair_globals = program_globals\<lparr>ROWS := 1, COLS := 2, RAND_MAX := 32767\<rparr>"

text \<open>
  The same, on a platform whose subtraction returns 1 for \<open>1 - 2\<^sup>-\<^sup>6\<^sup>0\<close>, as rounding to the
  53 significant bits of a \<open>double\<close> does.
\<close>

definition stalled_globals :: globals where
  "stalled_globals =
     pair_globals\<lparr>fsub := (\<lambda>a b. if a = 1 \<and> b = 1 / 2 ^ 60 then 1 else a - b)\<rparr>"

definition pair_grid :: grid_t where
  "pair_grid = [[RESIDENTIAL, OFFICE]]"

definition pair_maps :: distanceMaps_t where
  "pair_maps =
     [TRANSPORT \<mapsto> [[DBL_MAX, DBL_MAX]],
      PUBLIC \<mapsto> [[DBL_MAX, DBL_MAX]],
      LANDSCAPE \<mapsto> [[DBL_MAX, DBL_MAX]],
      ROAD \<mapsto> [[DBL_MAX, DBL_MAX]]]"

text \<open>A row of two cells without any agent, and one with a single agent.\<close>

definition bare_grid :: grid_t where
  "bare_grid = [[ROAD, EMPTY]]"

definition lone_grid :: grid_t where
  "lone_grid = [[ROAD, OFFICE]]"

text \<open>
  Generators: one that always returns 0, one whose first four values select the cells
  (0,0) and (0,1), and one that after these four values returns \<open>RAND_MAX\<close>.
\<close>

definition zero_rng :: rng where
  "zero_rng = sconst 0"

definition swap_rng :: rng where
  "swap_rng = 0 ## 0 ## 0 ## 1 ## zero_rng"

definition top_rng :: rng where
  "top_rng = 0 ## 0 ## 0 ## 1 ## 32767 ## zero_rng"

text \<open>The state the run on the two agents starts from, and the state after their swap.\<close>

definition pair_start :: anneal_state where
  "pair_start = initial_state pair_grid 0 2"

definition pair_swapped :: anneal_state where
  "pair_swapped =
     \<lparr>grid = [[OFFICE, RESIDENTIAL]], currentScore = 0, bestGrid = pair_grid, bestScore = 0,
      temperature = 1, iteration = 1\<rparr>"

section \<open>Properties of the Scorer\<close>








section \<open>Selecting and swapping cells\<close>

lemma pick_agent_sound_aux:
  assumes "pick_agent G g s = Some r"
  shows "0 < ROWS G \<longrightarrow> 0 < COLS G \<longrightarrow>
     fst (fst r) < ROWS G \<and> snd (fst r) < COLS G \<and> is_agent (g ! fst (fst r) ! snd (fst r)) \<and>
     (\<exists>k. snd r = sdrop k s)"
proof (induction rule: pick_agent.raw_induct [OF _ assms])
  case (1 pick G g s r)
  show ?case
  proof (intro impI)
    assume pos: "0 < ROWS G" "0 < COLS G"
    let ?x = "shd s mod ROWS G" and ?y = "shd (stl s) mod COLS G"
    show "fst (fst r) < ROWS G \<and> snd (fst r) < COLS G \<and>
          is_agent (g ! fst (fst r) ! snd (fst r)) \<and> (\<exists>k. snd r = sdrop k s)"
    proof (cases "is_agent (g ! ?x ! ?y)")
      case True
      with 1(2) have r: "r = ((?x, ?y), stl (stl s))" by (simp add: rand_def Let_def)
      have "stl (stl s) = sdrop (Suc (Suc 0)) s" by simp
      then have "\<exists>k. snd r = sdrop k s" unfolding r snd_conv by (rule exI)
      moreover have "fst (fst r) < ROWS G" "snd (fst r) < COLS G"
        "is_agent (g ! fst (fst r) ! snd (fst r))"
        using True pos by (simp_all add: r)
      ultimately show ?thesis by blast
    next
      case False
      with 1(2) have "pick G g (stl (stl s)) = Some r" by (simp add: rand_def Let_def)
      from 1(1) [OF this] pos obtain k where
        *: "fst (fst r) < ROWS G" "snd (fst r) < COLS G" "is_agent (g ! fst (fst r) ! snd (fst r))"
        and k: "snd r = sdrop k (stl (stl s))" by blast
      have "sdrop k (stl (stl s)) = sdrop (Suc (Suc k)) s" by simp
      with k have "snd r = sdrop (Suc (Suc k)) s" by (rule trans)
      then have "\<exists>k. snd r = sdrop k s" by (rule exI)
      with * show ?thesis by blast
    qed
  qed
qed

lemma pick_agent_sound:
  assumes "pick_agent G g s = Some ((x, y), s')" "0 < ROWS G" "0 < COLS G"
  shows "x < ROWS G" "y < COLS G" "is_agent (g ! x ! y)" "\<exists>k. s' = sdrop k s"
  using pick_agent_sound_aux [OF assms(1)] assms(2,3) by auto

lemma concat_set_cell:
  assumes "\<forall>row \<in> set g. length row = c" "i < length g" "j < c"
  shows "concat (set_cell g i j v) = (concat g)[i * c + j := v]"
  using assms
proof (induction g arbitrary: i)
  case Nil
  then show ?case by simp
next
  case (Cons r g)
  show ?case
  proof (cases i)
    case 0
    with Cons.prems show ?thesis by (simp add: set_cell_def list_update_append)
  next
    case (Suc i')
    with Cons.prems have "concat (set_cell g i' j v) = (concat g)[i' * c + j := v]"
      by (intro Cons.IH) auto
    with Suc Cons.prems show ?thesis by (simp add: set_cell_def list_update_append)
  qed
qed

lemma nth_concat_cell:
  assumes "\<forall>row \<in> set g. length row = c" "i < length g" "j < c"
  shows "concat g ! (i * c + j) = g ! i ! j"
  using assms
proof (induction g arbitrary: i)
  case Nil
  then show ?case by simp
next
  case (Cons r g)
  show ?case
  proof (cases i)
    case 0
    with Cons.prems show ?thesis by (simp add: nth_append)
  next
    case (Suc i')
    with Cons.prems have "concat g ! (i' * c + j) = g ! i' ! j"
      by (intro Cons.IH) auto
    with Suc Cons.prems show ?thesis by (simp add: nth_append)
  qed
qed

lemma length_concat_rect:
  assumes "\<forall>row \<in> set g. length row = c"
  shows "length (concat g) = length g * c"
  using assms by (induction g) auto

lemma cell_index_less:
  assumes "i < (r::nat)" "j < c"
  shows "i * c + j < r * c"
proof -
  have "i * c + j < i * c + c" using assms by simp
  also have "\<dots> = Suc i * c" by simp
  also have "\<dots> \<le> r * c" using assms by (intro mult_le_mono1) simp
  finally show ?thesis .
qed

lemma well_formed_set_cell:
  assumes "well_formed G g"
  shows "well_formed G (set_cell g i j v)"
proof (cases "i < length g")
  case True
  have "length row = COLS G" if "row \<in> set (g[i := (g ! i)[j := v]])" for row
  proof -
    from that have "row \<in> insert ((g ! i)[j := v]) (set g)"
      using set_update_subset_insert by fastforce
    then show ?thesis using assms True by (auto simp: well_formed_def)
  qed
  with assms show ?thesis by (simp add: well_formed_def set_cell_def)
next
  case False
  then have "g[i := (g ! i)[j := v]] = g" by (simp add: list_update_beyond)
  with assms show ?thesis by (simp add: set_cell_def)
qed

lemma nth_set_cell:
  assumes "well_formed G g" "i < ROWS G" "j < COLS G" "a < ROWS G" "b < COLS G"
  shows "set_cell g i j v ! a ! b = (if a = i \<and> b = j then v else g ! a ! b)"
  using assms by (auto simp: set_cell_def well_formed_def nth_list_update)

lemma nth_swap_cells:
  assumes "well_formed G g" "fst p1 < ROWS G" "snd p1 < COLS G" "fst p2 < ROWS G" "snd p2 < COLS G"
    "a < ROWS G" "b < COLS G"
  shows "swap_cells g p1 p2 ! a ! b =
         (if (a, b) = p2 then g ! fst p1 ! snd p1
          else if (a, b) = p1 then g ! fst p2 ! snd p2 else g ! a ! b)"
  using assms
  by (cases p1; cases p2)
     (simp add: swap_cells_def Let_def nth_set_cell [OF well_formed_set_cell] nth_set_cell)

lemma well_formed_swap_cells:
  "well_formed G g \<Longrightarrow> well_formed G (swap_cells g p1 p2)"
  by (simp add: swap_cells_def Let_def well_formed_set_cell)

lemma mset_concat_swap_cells:
  assumes wf: "well_formed G g" and p1: "fst p1 < ROWS G" "snd p1 < COLS G"
    and p2: "fst p2 < ROWS G" "snd p2 < COLS G"
  shows "mset (concat (swap_cells g p1 p2)) = mset (concat g)"
proof -
  let ?c = "COLS G"
  let ?k1 = "fst p1 * ?c + snd p1" and ?k2 = "fst p2 * ?c + snd p2"
  from wf have rect: "\<forall>row \<in> set g. length row = ?c" and len: "length g = ROWS G"
    by (simp_all add: well_formed_def)
  let ?g1 = "set_cell g (fst p1) (snd p1) (g ! fst p2 ! snd p2)"
  from well_formed_set_cell [OF wf] have rect1: "\<forall>row \<in> set ?g1. length row = ?c"
    and len1: "length ?g1 = ROWS G" by (simp_all add: well_formed_def)
  have k1: "?k1 < length (concat g)" and k2: "?k2 < length (concat g)"
    using p1 p2 by (simp_all add: length_concat_rect [OF rect] len cell_index_less)
  have "concat (swap_cells g p1 p2) =
        (concat g)[?k1 := concat g ! ?k2, ?k2 := concat g ! ?k1]"
    using p1 p2 len len1
    by (simp add: swap_cells_def Let_def concat_set_cell [OF rect1] concat_set_cell [OF rect]
        nth_concat_cell [OF rect])
  then show ?thesis using mset_swap [OF k2 k1] by simp
qed

section \<open>Iterations of the Annealer\<close>

lemma loop_body_cases:
  assumes "loop_body G distanceMaps coolingRate st s = Some (Inr (st', s'))"
  obtains p1 s1 p2 s2 newScore where
    "pick_agent G (grid st) s = Some (p1, s1)"
    "pick_agent G (grid st) s1 = Some (p2, s2)"
    "calculateScore G (swap_cells (grid st) p1 p2) distanceMaps = Inr newScore"
    "st' = cool G coolingRate
             (if fst (accept_move G (fsub G newScore (currentScore st)) (temperature st) s2)
              then accept_update st (swap_cells (grid st) p1 p2) newScore else st)"
    "s' = snd (accept_move G (fsub G newScore (currentScore st)) (temperature st) s2)"
  using assms unfolding loop_body_def
  by (auto simp: Let_def split: option.splits sum.splits prod.splits)

lemma loop_body_eval:
  assumes "pick_agent G (grid st) s = Some (p1, s1)"
    "pick_agent G (grid st) s1 = Some (p2, s2)"
    "calculateScore G (swap_cells (grid st) p1 p2) distanceMaps = Inr newScore"
  shows "loop_body G distanceMaps coolingRate st s =
         Some (Inr (cool G coolingRate
             (if fst (accept_move G (fsub G newScore (currentScore st)) (temperature st) s2)
              then accept_update st (swap_cells (grid st) p1 p2) newScore else st),
           snd (accept_move G (fsub G newScore (currentScore st)) (temperature st) s2)))"
  using assms by (simp add: loop_body_def Let_def)

lemma grid_inv_swap_cells:
  assumes inv: "grid_inv G g0 g"
    and p1: "fst p1 < ROWS G" "snd p1 < COLS G" "is_agent (g ! fst p1 ! snd p1)"
    and p2: "fst p2 < ROWS G" "snd p2 < COLS G" "is_agent (g ! fst p2 ! snd p2)"
  shows "grid_inv G g0 (swap_cells g p1 p2)"
proof -
  from inv have wf: "well_formed G g" by (simp add: grid_inv_def)
  have cells: "(is_agent (swap_cells g p1 p2 ! i ! j) \<longleftrightarrow> is_agent (g0 ! i ! j)) \<and>
        (\<not> is_agent (g0 ! i ! j) \<longrightarrow> swap_cells g p1 p2 ! i ! j = g0 ! i ! j)"
    if ij: "i < ROWS G" "j < COLS G" for i j
  proof -
    from inv ij have *: "is_agent (g ! i ! j) \<longleftrightarrow> is_agent (g0 ! i ! j)"
      "\<not> is_agent (g0 ! i ! j) \<longrightarrow> g ! i ! j = g0 ! i ! j"
      by (simp_all add: grid_inv_def)
    show ?thesis
      using * p1(3) p2(3)
      by (auto simp: nth_swap_cells [OF wf p1(1,2) p2(1,2) ij])
  qed
  from inv have "mset (concat (swap_cells g p1 p2)) = mset (concat g0)"
    by (simp add: mset_concat_swap_cells [OF wf p1(1,2) p2(1,2)] grid_inv_def)
  with cells well_formed_swap_cells [OF wf] show ?thesis
    unfolding grid_inv_def by blast
qed

lemma state_inv_accept_update:
  assumes "state_inv G g0 st" "grid_inv G g0 newGrid"
  shows "state_inv G g0 (accept_update st newGrid newScore)"
  using assms by (simp add: state_inv_def accept_update_def Let_def)

lemma state_inv_cool: "state_inv G g0 (cool G r st) \<longleftrightarrow> state_inv G g0 st"
  by (simp add: state_inv_def cool_def)

lemma loop_body_state_inv:
  assumes inv: "state_inv G g0 st" and pos: "0 < ROWS G" "0 < COLS G"
    and body: "loop_body G distanceMaps coolingRate st s = Some (Inr (st', s'))"
  shows "state_inv G g0 st'"
proof -
  from body obtain p1 s1 p2 s2 newScore where
    pick1: "pick_agent G (grid st) s = Some (p1, s1)" and
    pick2: "pick_agent G (grid st) s1 = Some (p2, s2)" and
    st': "st' = cool G coolingRate
             (if fst (accept_move G (fsub G newScore (currentScore st)) (temperature st) s2)
              then accept_update st (swap_cells (grid st) p1 p2) newScore else st)"
    by (rule loop_body_cases)
  from pick1 pos have a1: "fst p1 < ROWS G" "snd p1 < COLS G" "is_agent (grid st ! fst p1 ! snd p1)"
    by (cases p1; simp add: pick_agent_sound)+
  from pick2 pos have a2: "fst p2 < ROWS G" "snd p2 < COLS G" "is_agent (grid st ! fst p2 ! snd p2)"
    by (cases p2; simp add: pick_agent_sound)+
  from inv have "grid_inv G g0 (grid st)" by (simp add: state_inv_def)
  then have "grid_inv G g0 (swap_cells (grid st) p1 p2)"
    using a1 a2 by (rule grid_inv_swap_cells)
  with inv show ?thesis
    unfolding st' by (simp add: state_inv_cool state_inv_accept_update)
qed

lemma after_iterations_invariant:
  assumes step: "\<And>st s st' s'. I st \<Longrightarrow> cooldown < temperature st \<Longrightarrow>
      loop_body G distanceMaps coolingRate st s = Some (Inr (st', s')) \<Longrightarrow> I st'"
    and "I (fst sr)"
    and "after_iterations G distanceMaps cooldown coolingRate n sr = Some sr'"
  shows "I (fst sr')"
  using assms(2,3)
proof (induction n arbitrary: sr)
  case 0
  then show ?case by simp
next
  case (Suc n)
  from Suc.prems(2) obtain sr1 where
    hot: "cooldown < temperature (fst sr)" and
    body: "loop_body G distanceMaps coolingRate (fst sr) (snd sr) = Some (Inr sr1)" and
    rest: "after_iterations G distanceMaps cooldown coolingRate n sr1 = Some sr'"
    by (auto split: if_splits option.splits sum.splits)
  from step [OF Suc.prems(1) hot, of "snd sr" "fst sr1" "snd sr1"] body
  have "I (fst sr1)" by simp
  then show ?case using rest by (rule Suc.IH)
qed

lemma anneal_loop_after_iterations:
  assumes "anneal_loop G distanceMaps cooldown coolingRate sr = Some (Inr sr')"
  shows "\<exists>n. after_iterations G distanceMaps cooldown coolingRate n sr = Some sr' \<and>
             \<not> cooldown < temperature (fst sr')"
proof -
  have "\<forall>sr'. res = Inr sr' \<longrightarrow>
          (\<exists>n. after_iterations G distanceMaps cooldown coolingRate n sr = Some sr' \<and>
             \<not> cooldown < temperature (fst sr'))"
    if "anneal_loop G distanceMaps cooldown coolingRate sr = Some res" for res
  proof (induction rule: anneal_loop.raw_induct [OF _ that])
    case (1 loop G distanceMaps cooldown coolingRate sr res)
    show ?case
    proof (intro allI impI)
      fix sr' assume res: "res = Inr sr'"
      show "\<exists>n. after_iterations G distanceMaps cooldown coolingRate n sr = Some sr' \<and>
             \<not> cooldown < temperature (fst sr')"
      proof (cases "cooldown < temperature (fst sr)")
        case False
        with 1(2) res have "sr' = sr" by simp
        with False have "after_iterations G distanceMaps cooldown coolingRate 0 sr = Some sr' \<and>
             \<not> cooldown < temperature (fst sr')" by simp
        then show ?thesis by (rule exI)
      next
        case True
        with 1(2) res obtain sr1 where
          body: "loop_body G distanceMaps coolingRate (fst sr) (snd sr) = Some (Inr sr1)" and
          rest: "loop G distanceMaps cooldown coolingRate sr1 = Some (Inr sr')"
          by (auto split: option.splits sum.splits)
        from 1(1) [OF rest] obtain n where
          "after_iterations G distanceMaps cooldown coolingRate n sr1 = Some sr'"
          "\<not> cooldown < temperature (fst sr')" by blast
        with True body
        have "after_iterations G distanceMaps cooldown coolingRate (Suc n) sr = Some sr' \<and>
             \<not> cooldown < temperature (fst sr')" by simp
        then show ?thesis by (rule exI)
      qed
    qed
  qed
  with assms show ?thesis by blast
qed

lemma state_inv_initial:
  "well_formed G g0 \<Longrightarrow> state_inv G g0 (initial_state g0 score temp)"
  by (simp add: state_inv_def grid_inv_def initial_state_def)

lemma after_iterations_state_inv:
  assumes "well_formed G g0" "0 < ROWS G" "0 < COLS G"
    and "after_iterations G distanceMaps cooldown coolingRate n (initial_state g0 score temp, s) = Some sr'"
  shows "state_inv G g0 (fst sr')"
proof (rule after_iterations_invariant [where I = "state_inv G g0", OF _ _ assms(4)])
  show "state_inv G g0 (fst (initial_state g0 score temp, s))"
    using assms(1) by (simp add: state_inv_initial)
qed (rule loop_body_state_inv [OF _ assms(2,3)])

lemma optimiseGrid_cases:
  assumes "optimiseGrid G g distanceMaps temp cooldown coolingRate s = Some (Inr (g', s'))"
  obtains score st where "calculateScore G g distanceMaps = Inr score"
    "anneal_loop G distanceMaps cooldown coolingRate (initial_state g score temp, s) = Some (Inr (st, s'))"
    "g' = bestGrid st"
  using assms unfolding optimiseGrid_def
  by (auto split: sum.splits option.splits prod.splits)

lemma optimiseGrid_state_inv:
  assumes "well_formed G g0" "0 < ROWS G" "0 < COLS G"
    and "optimiseGrid G g0 distanceMaps temp cooldown coolingRate s = Some (Inr (g', s'))"
  shows "grid_inv G g0 g'"
proof -
  from assms(4) obtain score st where
    loop: "anneal_loop G distanceMaps cooldown coolingRate (initial_state g0 score temp, s) = Some (Inr (st, s'))"
    and g': "g' = bestGrid st" by (rule optimiseGrid_cases)
  from anneal_loop_after_iterations [OF loop] obtain n where
    "after_iterations G distanceMaps cooldown coolingRate n (initial_state g0 score temp, s) = Some (st, s')"
    by blast
  from after_iterations_state_inv [OF assms(1-3) this] g' show ?thesis
    by (simp add: state_inv_def)
qed

text \<open>
  C5. On a grid of the program's dimensions, the multiset of agent labels on the working
  grid after \<open>n\<close> iterations is the multiset of the grid the run started from, for every
  \<open>n\<close>, and so is that of the grid \<open>optimiseGrid\<close> leaves in place when it returns.
\<close>

theorem agent_labels_conserved:
  assumes "well_formed G g0" and "0 < ROWS G" and "0 < COLS G"
  shows "(after_iterations G distanceMaps cooldown coolingRate n (initial_state g0 score temp, s)
            = Some (st, s') \<longrightarrow> agent_labels (grid st) = agent_labels g0) \<and>
         (optimiseGrid G g0 distanceMaps temp cooldown coolingRate s = Some (Inr (g', s''))
            \<longrightarrow> agent_labels g' = agent_labels g0)"
proof (intro conjI impI)
  assume "after_iterations G distanceMaps cooldown coolingRate n (initial_state g0 score temp, s)
            = Some (st, s')"
  from after_iterations_state_inv [OF assms this]
  show "agent_labels (grid st) = agent_labels g0"
    by (simp add: state_inv_def grid_inv_def agent_labels_def)
next
  assume "optimiseGrid G g0 distanceMaps temp cooldown coolingRate s = Some (Inr (g', s''))"
  from optimiseGrid_state_inv [OF assms this]
  show "agent_labels g' = agent_labels g0"
    by (simp add: grid_inv_def agent_labels_def)
qed

text \<open>
  C6. After any number of iterations, and in the grid left in place at the end, a position
  holds an agent label exactly if it did at the start, and every position that held a
  fixed-feature label or the empty label holds the label it had: only cells holding agent
  labels are written.
\<close>

theorem fixed_cells_unchanged:
  assumes "well_formed G g0" and "0 < ROWS G" and "0 < COLS G"
    and "i < ROWS G" and "j < COLS G"
  shows "(after_iterations G distanceMaps cooldown coolingRate n (initial_state g0 score temp, s)
            = Some (st, s') \<longrightarrow>
            (is_agent (grid st ! i ! j) \<longleftrightarrow> is_agent (g0 ! i ! j)) \<and>
            (\<not> is_agent (g0 ! i ! j) \<longrightarrow> grid st ! i ! j = g0 ! i ! j)) \<and>
         (optimiseGrid G g0 distanceMaps temp cooldown coolingRate s = Some (Inr (g', s''))
            \<longrightarrow> (is_agent (g' ! i ! j) \<longleftrightarrow> is_agent (g0 ! i ! j)) \<and>
                (\<not> is_agent (g0 ! i ! j) \<longrightarrow> g' ! i ! j = g0 ! i ! j))"
proof (intro conjI impI)
  assume *: "after_iterations G distanceMaps cooldown coolingRate n (initial_state g0 score temp, s)
            = Some (st, s')"
  from after_iterations_state_inv [OF assms(1-3) *] assms(4,5)
  show "is_agent (grid st ! i ! j) \<longleftrightarrow> is_agent (g0 ! i ! j)"
    by (simp add: state_inv_def grid_inv_def)
  assume "\<not> is_agent (g0 ! i ! j)"
  with after_iterations_state_inv [OF assms(1-3) *] assms(4,5)
  show "grid st ! i ! j = g0 ! i ! j"
    by (simp add: state_inv_def grid_inv_def)
next
  assume *: "optimiseGrid G g0 distanceMaps temp cooldown coolingRate s = Some (Inr (g', s''))"
  from optimiseGrid_state_inv [OF assms(1-3) *] assms(4,5)
  show "is_agent (g' ! i ! j) \<longleftrightarrow> is_agent (g0 ! i ! j)"
    by (simp add: grid_inv_def)
  assume "\<not> is_agent (g0 ! i ! j)"
  with optimiseGrid_state_inv [OF assms(1-3) *] assms(4,5)
  show "g' ! i ! j = g0 ! i ! j"
    by (simp add: grid_inv_def)
qed

lemma pick_agent_hit:
  assumes "is_agent (g ! (shd s mod ROWS G) ! (shd (stl s) mod COLS G))"
  shows "pick_agent G g s = Some ((shd s mod ROWS G, shd (stl s) mod COLS G), stl (stl s))"
  using assms by (subst pick_agent.simps) (simp add: rand_def Let_def)

lemma is_agent_simps [simp]:
  "is_agent RESIDENTIAL" "is_agent OFFICE" "is_agent COM_SHOP" "is_agent COM_CAFE"
  "\<not> is_agent EMPTY" "\<not> is_agent TRANSPORT" "\<not> is_agent PUBLIC" "\<not> is_agent LANDSCAPE"
  "\<not> is_agent ROAD"
  by (simp_all add: is_agent_def agentTypes_def)

lemma pair_globals_simps [simp]:
  "ROWS pair_globals = 1" "COLS pair_globals = 2" "RAND_MAX pair_globals = 32767"
  "agentPreferences pair_globals = agentPreferences program_globals"
  "fsub pair_globals a b = a - b" "fmul pair_globals a b = a * b"
  "fdiv pair_globals a b = a / b" "fexp pair_globals a = exp a"
  by (simp_all add: pair_globals_def program_globals_def)

lemma pair_pick_zero: "pick_agent pair_globals pair_grid zero_rng = Some ((0, 0), zero_rng)"
  by (simp add: pick_agent_hit zero_rng_def pair_grid_def)

lemma pair_pick_00: "pick_agent pair_globals pair_grid (0 ## 0 ## s) = Some ((0, 0), s)"
  by (simp add: pick_agent_hit pair_grid_def)

lemma pair_pick_01: "pick_agent pair_globals pair_grid (0 ## 1 ## s) = Some ((0, 1), s)"
  by (simp add: pick_agent_hit pair_grid_def)

lemma pair_swap:
  "swap_cells pair_grid (0, 0) (0, 1) = [[OFFICE, RESIDENTIAL]]"
  "swap_cells pair_grid (0, 0) (0, Suc 0) = [[OFFICE, RESIDENTIAL]]"
  by (simp_all add: swap_cells_def set_cell_def pair_grid_def)

lemma upt_4: "[0..<4] = [0, 1, 2, 3]" and upt_2: "[0..<2] = [0, 1]" and upt_1: "[0..<1] = [0]"
  by (simp_all add: upt_rec)

lemma pair_score: "calculateScore pair_globals g pair_maps = Inr 0"
  by (simp add: calculateScore_def score_cell_def score_term_def pair_maps_def landUseTypes_def
      upt_4 upt_2 upt_1 Let_def DBL_MAX_def)

lemma is_agent_not_fixed: "is_agent c \<Longrightarrow> c \<noteq> EMPTY \<and> c \<notin> set landUseTypes"
  by (auto simp: is_agent_def agentTypes_def landUseTypes_def)

lemma bestScore_accept_update: "bestScore st \<le> bestScore (accept_update st newGrid newScore)"
  by (simp add: accept_update_def Let_def)

lemma pair_start_simps [simp]:
  "grid pair_start = pair_grid" "currentScore pair_start = 0" "bestGrid pair_start = pair_grid"
  "bestScore pair_start = 0" "temperature pair_start = 2" "iteration pair_start = 0"
  by (simp_all add: pair_start_def initial_state_def)

lemma pair_picks_swap:
  "pick_agent pair_globals (grid pair_start) swap_rng = Some ((0, 0), 0 ## 1 ## zero_rng)"
  "pick_agent pair_globals (grid pair_start) (0 ## 1 ## zero_rng) = Some ((0, 1), zero_rng)"
  unfolding swap_rng_def by (simp_all only: pair_start_simps pair_pick_00 pair_pick_01)

lemma pair_picks_top:
  "pick_agent pair_globals (grid pair_start) top_rng = Some ((0, 0), 0 ## 1 ## 32767 ## zero_rng)"
  "pick_agent pair_globals (grid pair_start) (0 ## 1 ## 32767 ## zero_rng)
     = Some ((0, 1), 32767 ## zero_rng)"
  unfolding top_rng_def by (simp_all only: pair_start_simps pair_pick_00 pair_pick_01)

lemma pair_candidate_score:
  "calculateScore pair_globals (swap_cells (grid pair_start) (0, 0) (0, 1)) pair_maps = Inr 0"
  by (rule pair_score)

lemma pair_body_swap:
  "loop_body pair_globals pair_maps (1 / 2) pair_start swap_rng = Some (Inr (pair_swapped, zero_rng))"
  unfolding loop_body_eval [OF pair_picks_swap pair_candidate_score]
  by (simp add: pair_swap accept_move_def accept_update_def cool_def rand_def zero_rng_def
      pair_swapped_def pair_start_def initial_state_def)

lemma pair_body_top:
  "loop_body pair_globals pair_maps (1 / 2) pair_start top_rng =
   Some (Inr (cool pair_globals (1 / 2) pair_start, zero_rng))"
  unfolding loop_body_eval [OF pair_picks_top pair_candidate_score]
  by (simp add: accept_move_def rand_def)

text \<open>
  C3, as amended. In an iteration whose selections return and whose candidate is scored,
  the candidate replaces the working grid and the current score exactly when
  \<open>delta > 0\<close>, or the draw \<open>(double)rand() / RAND_MAX\<close> is less than \<open>exp(delta / T)\<close>,
  the quotients and the exponential being what the platform computes. The draw is made,
  and the generator advanced, only when \<open>delta > 0\<close> is false. The draw is not confined to
  the half-open interval: where dividing \<open>RAND_MAX\<close> by itself gives 1 and the exponential
  is at most 1, a candidate with \<open>delta \<le> 0\<close> is rejected when \<open>rand()\<close> returns \<open>RAND_MAX\<close>.
\<close>

theorem metropolis_acceptance:
  assumes "pick_agent G (grid st) s = Some (p1, s1)"
    and "pick_agent G (grid st) s1 = Some (p2, s2)"
    and "calculateScore G (swap_cells (grid st) p1 p2) distanceMaps = Inr newScore"
  shows "\<exists>st' s'. loop_body G distanceMaps coolingRate st s = Some (Inr (st', s')) \<and>
           s' = (if fsub G newScore (currentScore st) > 0 then s2 else stl s2) \<and>
           (if fsub G newScore (currentScore st) > 0 \<or>
               fdiv G (real (shd s2)) (real (RAND_MAX G))
                 < fexp G (fdiv G (fsub G newScore (currentScore st)) (temperature st))
            then grid st' = swap_cells (grid st) p1 p2 \<and> currentScore st' = newScore
            else grid st' = grid st \<and> currentScore st' = currentScore st) \<and>
           (\<not> fsub G newScore (currentScore st) > 0 \<and> shd s2 = RAND_MAX G \<and>
              fdiv G (real (RAND_MAX G)) (real (RAND_MAX G)) = 1 \<and>
              fexp G (fdiv G (fsub G newScore (currentScore st)) (temperature st)) \<le> 1
            \<longrightarrow> grid st' = grid st \<and> currentScore st' = currentScore st)"
  by (simp add: loop_body_eval [OF assms(1-3)] accept_move_def accept_update_def cool_def
      rand_def Let_def)

theorem metropolis_acceptance_witness:
  "pick_agent pair_globals (grid pair_start) swap_rng = Some ((0, 0), 0 ## 1 ## zero_rng) \<and>
   pick_agent pair_globals (grid pair_start) (0 ## 1 ## zero_rng) = Some ((0, 1), zero_rng) \<and>
   calculateScore pair_globals (swap_cells (grid pair_start) (0, 0) (0, 1)) pair_maps = Inr 0 \<and>
   (\<exists>st' s'. loop_body pair_globals pair_maps (1 / 2) pair_start swap_rng = Some (Inr (st', s')) \<and>
      s' = stl zero_rng \<and> grid st' = [[OFFICE, RESIDENTIAL]] \<and> currentScore st' = 0) \<and>
   pick_agent pair_globals (grid pair_start) top_rng = Some ((0, 0), 0 ## 1 ## 32767 ## zero_rng) \<and>
   pick_agent pair_globals (grid pair_start) (0 ## 1 ## 32767 ## zero_rng)
     = Some ((0, 1), 32767 ## zero_rng) \<and>
   shd (32767 ## zero_rng) = RAND_MAX pair_globals \<and>
   fdiv pair_globals (real (RAND_MAX pair_globals)) (real (RAND_MAX pair_globals)) = 1 \<and>
   fexp pair_globals (fdiv pair_globals (fsub pair_globals 0 (currentScore pair_start))
      (temperature pair_start)) \<le> 1 \<and>
   (\<exists>st' s'. loop_body pair_globals pair_maps (1 / 2) pair_start top_rng = Some (Inr (st', s')) \<and>
      s' = zero_rng \<and> grid st' = pair_grid \<and> currentScore st' = 0)"
proof -
  note 1 = pair_picks_swap(1) and 2 = pair_picks_swap(2) and 3 = pair_candidate_score
  note 4 = pair_picks_top(1) and 5 = pair_picks_top(2)
  have 6: "shd (32767 ## zero_rng) = RAND_MAX pair_globals"
    "fdiv pair_globals (real (RAND_MAX pair_globals)) (real (RAND_MAX pair_globals)) = 1"
    "fexp pair_globals (fdiv pair_globals (fsub pair_globals 0 (currentScore pair_start))
      (temperature pair_start)) \<le> 1"
    by simp_all
  from metropolis_acceptance [OF 1 2 3, of "1 / 2"]
  have a: "\<exists>st' s'. loop_body pair_globals pair_maps (1 / 2) pair_start swap_rng
        = Some (Inr (st', s')) \<and>
      s' = stl zero_rng \<and> grid st' = [[OFFICE, RESIDENTIAL]] \<and> currentScore st' = 0"
    by (auto simp: zero_rng_def pair_swap)
  from metropolis_acceptance [OF 4 5 3, of "1 / 2"] 6
  have b: "\<exists>st' s'. loop_body pair_globals pair_maps (1 / 2) pair_start top_rng
        = Some (Inr (st', s')) \<and>
      s' = zero_rng \<and> grid st' = pair_grid \<and> currentScore st' = 0"
    by auto
  from 1 2 3 4 5 6 a b show ?thesis by blast
qed

text \<open>
  The draw is not confined to the half-open interval: when \<open>rand()\<close> returns \<open>RAND_MAX\<close> it
  is 1. On the two agents, whose every arrangement scores 0, the candidate that swaps them
  has \<open>delta = 0\<close>, and a draw below 1 would accept it; the generator \<open>top_rng\<close> makes the
  draw 1 and the iteration keeps the grid. (All values here are held exactly by a
  \<open>double\<close>: 0 / 2 is 0, the exponential of 0 is 1, 32767 / 32767 is 1.)
\<close>

theorem metropolis_draw_reaches_one:
  "loop_body pair_globals pair_maps (1 / 2) pair_start top_rng =
     Some (Inr (cool pair_globals (1 / 2) pair_start, zero_rng)) \<and>
   grid (cool pair_globals (1 / 2) pair_start) = pair_grid \<and>
   swap_cells pair_grid (0, 0) (0, 1) = [[OFFICE, RESIDENTIAL]] \<and>
   [[OFFICE, RESIDENTIAL]] \<noteq> pair_grid \<and>
   calculateScore pair_globals [[OFFICE, RESIDENTIAL]] pair_maps = Inr (currentScore pair_start) \<and>
   top_rng !! 4 = RAND_MAX pair_globals \<and>
   real (top_rng !! 4) / real (RAND_MAX pair_globals) = 1"
proof -
  have "grid (cool pair_globals (1 / 2) pair_start) = pair_grid" by (simp add: cool_def)
  moreover have "[[OFFICE, RESIDENTIAL]] \<noteq> pair_grid" by (simp add: pair_grid_def)
  moreover have "calculateScore pair_globals [[OFFICE, RESIDENTIAL]] pair_maps
      = Inr (currentScore pair_start)" by (simp add: pair_score)
  moreover have top: "top_rng !! 4 = RAND_MAX pair_globals"
    by (simp add: top_rng_def eval_nat_numeral)
  moreover have "real (top_rng !! 4) / real (RAND_MAX pair_globals) = 1"
    unfolding top by simp
  ultimately show ?thesis using pair_body_top pair_swap(1) by blast
qed

text \<open>
  C4, as amended. Each of the two positions selected in an iteration lies on the grid and
  holds an agent label, never the empty label or a fixed-feature label. (The two
  positions may be the same.)
\<close>

theorem selected_cells_hold_agents:
  assumes "0 < ROWS G" and "0 < COLS G"
    and "pick_agent G g s = Some ((x1, y1), s1)"
    and "pick_agent G g s1 = Some ((x2, y2), s2)"
  shows "x1 < ROWS G \<and> y1 < COLS G \<and> is_agent (g ! x1 ! y1) \<and>
         g ! x1 ! y1 \<noteq> EMPTY \<and> g ! x1 ! y1 \<notin> set landUseTypes \<and>
         x2 < ROWS G \<and> y2 < COLS G \<and> is_agent (g ! x2 ! y2) \<and>
         g ! x2 ! y2 \<noteq> EMPTY \<and> g ! x2 ! y2 \<notin> set landUseTypes"
  using pick_agent_sound(1-3) [OF assms(3) assms(1,2)] pick_agent_sound(1-3) [OF assms(4) assms(1,2)]
  by (simp add: is_agent_not_fixed)

theorem selected_cells_hold_agents_witness:
  "0 < ROWS pair_globals \<and> 0 < COLS pair_globals \<and>
   pick_agent pair_globals pair_grid swap_rng = Some ((0, 0), 0 ## 1 ## zero_rng) \<and>
   pick_agent pair_globals pair_grid (0 ## 1 ## zero_rng) = Some ((0, 1), zero_rng) \<and>
   is_agent (pair_grid ! 0 ! 0) \<and> is_agent (pair_grid ! 0 ! 1)"
proof -
  have 1: "pick_agent pair_globals pair_grid swap_rng = Some ((0, 0), 0 ## 1 ## zero_rng)"
    unfolding swap_rng_def by (rule pair_pick_00)
  have 2: "pick_agent pair_globals pair_grid (0 ## 1 ## zero_rng) = Some ((0, 1), zero_rng)"
    by (rule pair_pick_01)
  have 3: "0 < ROWS pair_globals" "0 < COLS pair_globals" by simp_all
  from selected_cells_hold_agents [OF 3 1 2] 1 2 3 show ?thesis by simp
qed

text \<open>
  The two selections are made independently and can return the same position: with a
  generator that always returns 0 both are the cell (0,0).
\<close>

theorem selected_cells_can_coincide:
  "pick_agent pair_globals pair_grid zero_rng = Some ((0, 0), zero_rng) \<and>
   fst (the (pick_agent pair_globals pair_grid zero_rng)) =
   fst (the (pick_agent pair_globals pair_grid (snd (the (pick_agent pair_globals pair_grid zero_rng)))))"
  by (simp add: pair_pick_zero)

lemma loop_body_bestScore:
  assumes "loop_body G distanceMaps coolingRate st s = Some (Inr (st', s'))"
  shows "bestScore st \<le> bestScore st'"
proof -
  from assms obtain p1 s2 p2 newScore where
    "st' = cool G coolingRate
             (if fst (accept_move G (fsub G newScore (currentScore st)) (temperature st) s2)
              then accept_update st (swap_cells (grid st) p1 p2) newScore else st)"
    by (rule loop_body_cases)
  then show ?thesis by (simp add: cool_def bestScore_accept_update)
qed

lemma after_iterations_bestScore:
  assumes "after_iterations G distanceMaps cooldown coolingRate n sr = Some sr'"
  shows "bestScore (fst sr) \<le> bestScore (fst sr')"
proof (rule after_iterations_invariant [where I = "\<lambda>st. bestScore (fst sr) \<le> bestScore st", OF _ _ assms])
  fix st s st' s'
  assume "bestScore (fst sr) \<le> bestScore st"
    and "loop_body G distanceMaps coolingRate st s = Some (Inr (st', s'))"
  then show "bestScore (fst sr) \<le> bestScore st'"
    using loop_body_bestScore by fastforce
qed simp

text \<open>
  C7. An iteration never lowers the best-seen score, and it replaces the best-grid
  snapshot and the best-seen score, by the candidate and its score, exactly when the
  candidate is accepted and its score is strictly greater than the best-seen score.
  Hence the best-seen scores along a run are non-decreasing: the one after \<open>m\<close> iterations
  is at most the one after \<open>n\<close> more.
\<close>

theorem best_score_monotone:
  assumes "pick_agent G (grid st) s = Some (p1, s1)"
    and "pick_agent G (grid st) s1 = Some (p2, s2)"
    and "calculateScore G (swap_cells (grid st) p1 p2) distanceMaps = Inr newScore"
  shows "(\<exists>st' s'. loop_body G distanceMaps coolingRate st s = Some (Inr (st', s')) \<and>
            bestScore st \<le> bestScore st' \<and>
            (if fst (accept_move G (fsub G newScore (currentScore st)) (temperature st) s2) \<and>
                bestScore st < newScore
             then bestGrid st' = swap_cells (grid st) p1 p2 \<and> bestScore st' = newScore \<and>
                  grid st' = bestGrid st' \<and> currentScore st' = newScore
             else bestGrid st' = bestGrid st \<and> bestScore st' = bestScore st)) \<and>
         (after_iterations G distanceMaps cooldown coolingRate m sr = Some sr1 \<longrightarrow>
          after_iterations G distanceMaps cooldown coolingRate n sr1 = Some sr2 \<longrightarrow>
            bestScore (fst sr1) \<le> bestScore (fst sr2))"
  by (auto simp: loop_body_eval [OF assms] accept_update_def cool_def Let_def
      dest: after_iterations_bestScore)

text \<open>
  C10. An iteration whose acceptance test rejects the candidate leaves the working grid,
  the current score, the best-grid snapshot and the best-seen score as they were; the
  temperature is multiplied by \<open>1 - coolingRate\<close> (difference and product as the platform
  computes them) and the iteration counter grows by one.
\<close>

theorem rejected_move_only_cools:
  assumes "pick_agent G (grid st) s = Some (p1, s1)"
    and "pick_agent G (grid st) s1 = Some (p2, s2)"
    and "calculateScore G (swap_cells (grid st) p1 p2) distanceMaps = Inr newScore"
    and "\<not> fst (accept_move G (fsub G newScore (currentScore st)) (temperature st) s2)"
  shows "\<exists>st' s'. loop_body G distanceMaps coolingRate st s = Some (Inr (st', s')) \<and>
           grid st' = grid st \<and> currentScore st' = currentScore st \<and>
           bestGrid st' = bestGrid st \<and> bestScore st' = bestScore st \<and>
           temperature st' = fmul G (temperature st) (fsub G 1 coolingRate) \<and>
           iteration st' = iteration st + 1"
  using assms(4) by (simp add: loop_body_eval [OF assms(1-3)] cool_def)

theorem rejected_move_only_cools_witness:
  "pick_agent pair_globals (grid pair_start) top_rng = Some ((0, 0), 0 ## 1 ## 32767 ## zero_rng) \<and>
   pick_agent pair_globals (grid pair_start) (0 ## 1 ## 32767 ## zero_rng)
     = Some ((0, 1), 32767 ## zero_rng) \<and>
   calculateScore pair_globals (swap_cells (grid pair_start) (0, 0) (0, 1)) pair_maps = Inr 0 \<and>
   \<not> fst (accept_move pair_globals (fsub pair_globals 0 (currentScore pair_start)) (temperature pair_start)
            (32767 ## zero_rng)) \<and>
   (\<exists>st' s'. loop_body pair_globals pair_maps (1 / 2) pair_start top_rng = Some (Inr (st', s')) \<and>
      grid st' = pair_grid \<and> temperature st' = 1 \<and> iteration st' = 1)"
proof -
  note 1 = pair_picks_top(1) and 2 = pair_picks_top(2) and 3 = pair_candidate_score
  have 4: "\<not> fst (accept_move pair_globals (fsub pair_globals 0 (currentScore pair_start)) (temperature pair_start)
            (32767 ## zero_rng))"
    by (simp add: accept_move_def rand_def)
  from rejected_move_only_cools [OF 1 2 3 4, of "1 / 2"] 1 2 3 4 show ?thesis
    by auto
qed

section \<open>Runs that never return\<close>

lemma pick_agent_no_agents:
  assumes "\<forall>i < ROWS G. \<forall>j < COLS G. \<not> is_agent (g ! i ! j)" "0 < ROWS G" "0 < COLS G"
  shows "pick_agent G g s = None"
proof (cases "pick_agent G g s")
  case None
  then show ?thesis .
next
  case (Some r)
  then have "pick_agent G g s = Some ((fst (fst r), snd (fst r)), snd r)" by simp
  from pick_agent_sound(1-3) [OF this assms(2,3)] assms(1) show ?thesis by blast
qed

lemma for_loop_keep:
  assumes "\<And>i acc. i \<in> set is \<Longrightarrow> body i acc = Inr acc"
  shows "for_loop is body acc = Inr acc"
  using assms by (induction "is" arbitrary: acc) simp_all

lemma calculateScore_no_agents:
  assumes "\<forall>i < ROWS G. \<forall>j < COLS G. \<not> is_agent (g ! i ! j)"
  shows "calculateScore G g distanceMaps = Inr 0"
  unfolding calculateScore_def
proof (rule for_loop_keep)
  fix i acc assume "i \<in> set [0..<ROWS G]"
  then have i: "i < ROWS G" by simp
  show "for_loop [0..<COLS G] (score_cell G g distanceMaps i) acc = Inr acc"
  proof (rule for_loop_keep)
    fix j acc' assume "j \<in> set [0..<COLS G]"
    with i assms show "score_cell G g distanceMaps i j acc' = Inr acc'"
      by (simp add: score_cell_def)
  qed
qed

lemma optimiseGrid_no_agents:
  assumes "\<forall>i < ROWS G. \<forall>j < COLS G. \<not> is_agent (g ! i ! j)" "0 < ROWS G" "0 < COLS G"
    and "cooldown < temp"
  shows "optimiseGrid G g distanceMaps temp cooldown coolingRate s = None"
proof -
  have "loop_body G distanceMaps coolingRate (initial_state g 0 temp) s = None"
    by (simp add: loop_body_def initial_state_def pick_agent_no_agents [OF assms(1-3)])
  then have "anneal_loop G distanceMaps cooldown coolingRate (initial_state g 0 temp, s) = None"
    using assms(4) by (subst anneal_loop.simps) (simp add: initial_state_def)
  then show ?thesis
    by (simp add: optimiseGrid_def calculateScore_no_agents [OF assms(1)])
qed

lemma set_cell_same:
  assumes "x < length g" "y < length (g ! x)"
  shows "set_cell g x y (g ! x ! y) = g"
  using assms by (simp add: set_cell_def)

lemma swap_cells_same:
  assumes "well_formed G g" "fst p < ROWS G" "snd p < COLS G"
  shows "swap_cells g p p = g"
  using assms by (simp add: swap_cells_def Let_def set_cell_def well_formed_def)

text \<open>
  C9, as amended. \<open>optimiseGrid\<close> makes no check on the number of agent cells. On a grid
  without any agent label, and with the starting temperature above the threshold, it
  never returns: the first selection loop does not end. On a grid whose only agent label
  is at position \<open>p\<close>, both selections that return yield \<open>p\<close>, and the candidate is the grid
  itself.
\<close>

theorem degenerate_pool_not_detected:
  assumes "0 < ROWS G" and "0 < COLS G" and "well_formed G g"
  shows "((\<forall>i < ROWS G. \<forall>j < COLS G. \<not> is_agent (g ! i ! j)) \<and> cooldown < temp \<longrightarrow>
            optimiseGrid G g distanceMaps temp cooldown coolingRate s = None) \<and>
         ((\<forall>i < ROWS G. \<forall>j < COLS G. is_agent (g ! i ! j) \<longrightarrow> (i, j) = p) \<and>
            pick_agent G g s = Some (p1, s1) \<and> pick_agent G g s1 = Some (p2, s2) \<longrightarrow>
            p1 = p \<and> p2 = p \<and> swap_cells g p1 p2 = g)"
proof (intro conjI impI)
  assume "(\<forall>i < ROWS G. \<forall>j < COLS G. \<not> is_agent (g ! i ! j)) \<and> cooldown < temp"
  then show "optimiseGrid G g distanceMaps temp cooldown coolingRate s = None"
    using assms(1,2) by (simp add: optimiseGrid_no_agents)
next
  assume *: "(\<forall>i < ROWS G. \<forall>j < COLS G. is_agent (g ! i ! j) \<longrightarrow> (i, j) = p) \<and>
            pick_agent G g s = Some (p1, s1) \<and> pick_agent G g s1 = Some (p2, s2)"
  then have 1: "pick_agent G g s = Some ((fst p1, snd p1), s1)"
    and 2: "pick_agent G g s1 = Some ((fst p2, snd p2), s2)" by simp_all
  from pick_agent_sound(1-3) [OF 1 assms(1,2)] * show p1: "p1 = p" by (metis prod.collapse)
  from pick_agent_sound(1-3) [OF 2 assms(1,2)] * show p2: "p2 = p" by (metis prod.collapse)
  from pick_agent_sound(1,2) [OF 1 assms(1,2)] p1 p2 assms(3)
  show "swap_cells g p1 p2 = g" by (simp add: swap_cells_same)
qed

lemma bare_no_agents:
  "\<forall>i < ROWS pair_globals. \<forall>j < COLS pair_globals. \<not> is_agent (bare_grid ! i ! j)"
  by (simp add: bare_grid_def less_Suc_eq numeral_2_eq_2)

lemma pair_pick_lone: "pick_agent pair_globals lone_grid (0 ## 1 ## s) = Some ((0, 1), s)"
  by (simp add: pick_agent_hit lone_grid_def)

theorem degenerate_pool_not_detected_witness:
  "0 < ROWS pair_globals \<and> 0 < COLS pair_globals \<and>
   well_formed pair_globals bare_grid \<and> well_formed pair_globals lone_grid \<and>
   (1::real) < 2 \<and>
   optimiseGrid pair_globals bare_grid pair_maps 2 1 (1 / 2) zero_rng = None \<and>
   pick_agent pair_globals lone_grid (0 ## 1 ## 0 ## 1 ## zero_rng) = Some ((0, 1), 0 ## 1 ## zero_rng) \<and>
   pick_agent pair_globals lone_grid (0 ## 1 ## zero_rng) = Some ((0, 1), zero_rng) \<and>
   swap_cells lone_grid (0, 1) (0, 1) = lone_grid"
proof -
  have pos: "0 < ROWS pair_globals" "0 < COLS pair_globals" by simp_all
  have wfb: "well_formed pair_globals bare_grid" by (simp add: well_formed_def bare_grid_def)
  have wfl: "well_formed pair_globals lone_grid" by (simp add: well_formed_def lone_grid_def)
  have one: "\<forall>i < ROWS pair_globals. \<forall>j < COLS pair_globals.
      is_agent (lone_grid ! i ! j) \<longrightarrow> (i, j) = (0, 1)"
    by (simp add: lone_grid_def less_Suc_eq numeral_2_eq_2)
  note p1 = pair_pick_lone [of "0 ## 1 ## zero_rng"] and p2 = pair_pick_lone [of zero_rng]
  from degenerate_pool_not_detected [OF pos wfb, where cooldown = 1 and temp = 2
      and distanceMaps = pair_maps and coolingRate = "1 / 2" and s = zero_rng] bare_no_agents
  have "optimiseGrid pair_globals bare_grid pair_maps 2 1 (1 / 2) zero_rng = None" by simp
  moreover from degenerate_pool_not_detected [OF pos wfl, where p = "(0, 1)"
      and s = "0 ## 1 ## 0 ## 1 ## zero_rng" and ?p1.0 = "(0, 1)" and ?s1.0 = "0 ## 1 ## zero_rng"
      and ?p2.0 = "(0, 1)" and ?s2.0 = zero_rng] one p1 p2
  have "swap_cells lone_grid (0, 1) (0, 1) = lone_grid" by blast
  ultimately show ?thesis using pos wfb wfl p1 p2 by simp
qed

text \<open>
  On the row without agents the run neither returns a grid nor reports a condition: it
  does not return at all.
\<close>

theorem no_agents_no_error:
  "optimiseGrid pair_globals bare_grid pair_maps 1000 1 (3 / 1000) zero_rng = None"
  using bare_no_agents by (simp add: optimiseGrid_no_agents)

section \<open>The run on the street\<close>

lemma street_globals_simps [simp]:
  "ROWS street_globals = 1" "COLS street_globals = 4"
  "agentPreferences street_globals = agentPreferences program_globals"
  "fsub street_globals a b = a - b" "fmul street_globals a b = a * b"
  "fdiv street_globals a b = a / b" "fexp street_globals a = exp a"
  by (simp_all add: street_globals_def program_globals_def)

lemma street_start_simps [simp]:
  "grid street_start = street_grid" "currentScore street_start = - 11 / 6"
  "bestGrid street_start = street_grid" "bestScore street_start = - 11 / 6"
  "temperature street_start = 2" "iteration street_start = 0"
  by (simp_all add: street_start_def initial_state_def)

lemma street_well_formed: "well_formed street_globals street_grid"
  by (simp add: well_formed_def street_grid_def)

lemma street_picks:
  "pick_agent street_globals (grid street_start) street_rng = Some ((0, 2), 0 ## 3 ## sconst 0)"
  "pick_agent street_globals (grid street_start) (0 ## 3 ## sconst 0) = Some ((0, 3), sconst 0)"
  by (simp_all add: pick_agent_hit street_grid_def street_rng_def)

lemma street_swap:
  "swap_cells (grid street_start) (0, 2) (0, 3) = [[ROAD, EMPTY, OFFICE, RESIDENTIAL]]"
  "swap_cells street_grid (0, 2) (0, 3) = [[ROAD, EMPTY, OFFICE, RESIDENTIAL]]"
  unfolding street_start_simps swap_cells_def set_cell_def street_grid_def Let_def fst_conv snd_conv
  by (simp_all add: eval_nat_numeral)

lemma street_score: "calculateScore street_globals street_grid street_maps = Inr (- 11 / 6)"
  by (simp add: calculateScore_def score_cell_def score_term_def street_maps_def street_grid_def
      landUseTypes_def preferences_of_def program_globals_def upt_4 upt_1 Let_def DBL_MAX_def)

lemma street_candidate_score:
  "calculateScore street_globals (swap_cells (grid street_start) (0, 2) (0, 3)) street_maps
   = Inr (- 2 / 3)"
  unfolding street_swap(1)
  by (simp add: calculateScore_def score_cell_def score_term_def street_maps_def
      landUseTypes_def preferences_of_def program_globals_def upt_4 upt_1 Let_def DBL_MAX_def)

lemma street_body:
  "loop_body street_globals street_maps (1 / 2) street_start street_rng
   = Some (Inr (street_swapped, sconst 0))"
  unfolding loop_body_eval [OF street_picks street_candidate_score]
  by (simp add: street_swap accept_move_def accept_update_def cool_def street_swapped_def
      street_start_def initial_state_def)

lemma street_after_one':
  "after_iterations street_globals street_maps 1 (1 / 2) (Suc 0) (street_start, street_rng)
   = Some (street_swapped, sconst 0)"
  by (simp add: street_body)

lemmas street_after_one = street_after_one' [unfolded street_start_def]

lemma street_after_none:
  "after_iterations street_globals street_maps 1 (1 / 2) 0
     (initial_state street_grid (- 11 / 6) 2, street_rng) = Some (street_start, street_rng)"
  unfolding street_start_def by simp

lemma street_loop:
  "anneal_loop street_globals street_maps 1 (1 / 2) (street_start, street_rng)
   = Some (Inr (street_swapped, sconst 0))"
proof -
  have "anneal_loop street_globals street_maps 1 (1 / 2) (street_swapped, sconst 0)
        = Some (Inr (street_swapped, sconst 0))"
    by (subst anneal_loop.simps) (simp add: street_swapped_def)
  then show ?thesis
    by (subst anneal_loop.simps) (simp add: street_body)
qed

lemma street_optimise:
  "optimiseGrid street_globals street_grid street_maps 2 1 (1 / 2) street_rng
   = Some (Inr ([[ROAD, EMPTY, OFFICE, RESIDENTIAL]], sconst 0))"
proof -
  have "bestGrid street_swapped = [[ROAD, EMPTY, OFFICE, RESIDENTIAL]]"
    by (simp add: street_swapped_def)
  then show ?thesis
    unfolding optimiseGrid_def street_score sum.case street_start_def [symmetric] street_loop
    by simp
qed

theorem agent_labels_conserved_witness:
  "well_formed street_globals street_grid \<and> 0 < ROWS street_globals \<and> 0 < COLS street_globals \<and>
   after_iterations street_globals street_maps 1 (1 / 2) (Suc 0)
     (initial_state street_grid (- 11 / 6) 2, street_rng) = Some (street_swapped, sconst 0) \<and>
   agent_labels (grid street_swapped) = agent_labels street_grid \<and>
   optimiseGrid street_globals street_grid street_maps 2 1 (1 / 2) street_rng
     = Some (Inr ([[ROAD, EMPTY, OFFICE, RESIDENTIAL]], sconst 0)) \<and>
   agent_labels [[ROAD, EMPTY, OFFICE, RESIDENTIAL]] = agent_labels street_grid"
proof -
  have pos: "0 < ROWS street_globals" "0 < COLS street_globals" by simp_all
  from agent_labels_conserved [OF street_well_formed pos, where distanceMaps = street_maps
      and cooldown = 1 and coolingRate = "1 / 2" and n = "Suc 0" and score = "- 11 / 6"
      and temp = 2 and s = street_rng and st = street_swapped and s' = "sconst 0"
      and g' = "[[ROAD, EMPTY, OFFICE, RESIDENTIAL]]" and s'' = "sconst 0"]
    street_after_one street_optimise
  have "agent_labels (grid street_swapped) = agent_labels street_grid"
    "agent_labels [[ROAD, EMPTY, OFFICE, RESIDENTIAL]] = agent_labels street_grid"
    by blast+
  with street_well_formed pos street_after_one street_optimise show ?thesis by blast
qed

theorem fixed_cells_unchanged_witness:
  "well_formed street_globals street_grid \<and> 0 < ROWS street_globals \<and> 0 < COLS street_globals \<and>
   (0::nat) < ROWS street_globals \<and> (0::nat) < COLS street_globals \<and>
   after_iterations street_globals street_maps 1 (1 / 2) (Suc 0)
     (initial_state street_grid (- 11 / 6) 2, street_rng) = Some (street_swapped, sconst 0) \<and>
   \<not> is_agent (street_grid ! 0 ! 0) \<and>
   grid street_swapped ! 0 ! 0 = street_grid ! 0 ! 0 \<and>
   optimiseGrid street_globals street_grid street_maps 2 1 (1 / 2) street_rng
     = Some (Inr ([[ROAD, EMPTY, OFFICE, RESIDENTIAL]], sconst 0)) \<and>
   [[ROAD, EMPTY, OFFICE, RESIDENTIAL]] ! 0 ! 0 = street_grid ! 0 ! 0"
proof -
  have pos: "0 < ROWS street_globals" "0 < COLS street_globals" by simp_all
  have road: "\<not> is_agent (street_grid ! 0 ! 0)" by (simp add: street_grid_def)
  from fixed_cells_unchanged [OF street_well_formed pos pos, where distanceMaps = street_maps
      and cooldown = 1 and coolingRate = "1 / 2" and n = "Suc 0" and score = "- 11 / 6"
      and temp = 2 and s = street_rng and st = street_swapped and s' = "sconst 0"
      and g' = "[[ROAD, EMPTY, OFFICE, RESIDENTIAL]]" and s'' = "sconst 0"]
    street_after_one street_optimise road
  have "grid street_swapped ! 0 ! 0 = street_grid ! 0 ! 0"
    "[[ROAD, EMPTY, OFFICE, RESIDENTIAL]] ! 0 ! 0 = street_grid ! 0 ! 0"
    by blast+
  with street_well_formed pos street_after_one street_optimise road show ?thesis by blast
qed

theorem best_score_monotone_witness:
  "pick_agent street_globals (grid street_start) street_rng = Some ((0, 2), 0 ## 3 ## sconst 0) \<and>
   pick_agent street_globals (grid street_start) (0 ## 3 ## sconst 0) = Some ((0, 3), sconst 0) \<and>
   calculateScore street_globals (swap_cells (grid street_start) (0, 2) (0, 3)) street_maps
     = Inr (- 2 / 3) \<and>
   fst (accept_move street_globals (fsub street_globals (- 2 / 3) (currentScore street_start))
          (temperature street_start) (sconst 0)) \<and>
   bestScore street_start < - 2 / 3 \<and>
   (\<exists>st' s'. loop_body street_globals street_maps (1 / 2) street_start street_rng
        = Some (Inr (st', s')) \<and>
      bestScore street_start \<le> bestScore st' \<and> bestScore st' = - 2 / 3 \<and>
      bestGrid st' = swap_cells (grid street_start) (0, 2) (0, 3)) \<and>
   after_iterations street_globals street_maps 1 (1 / 2) 0
     (initial_state street_grid (- 11 / 6) 2, street_rng) = Some (street_start, street_rng) \<and>
   after_iterations street_globals street_maps 1 (1 / 2) (Suc 0) (street_start, street_rng)
     = Some (street_swapped, sconst 0) \<and>
   bestScore (fst (street_start, street_rng)) \<le> bestScore (fst (street_swapped, sconst 0::nat stream))"
proof -
  have acc: "fst (accept_move street_globals (fsub street_globals (- 2 / 3) (currentScore street_start))
          (temperature street_start) (sconst 0))"
    by (simp add: accept_move_def)
  have best: "bestScore street_start < - 2 / 3" by simp
  note after1 = street_after_one'
  from best_score_monotone [OF street_picks street_candidate_score, where coolingRate = "1 / 2"
      and cooldown = 1 and m = 0 and sr = "(initial_state street_grid (- 11 / 6) 2, street_rng)"
      and ?sr1.0 = "(street_start, street_rng)" and n = "Suc 0"
      and ?sr2.0 = "(street_swapped, sconst 0)"] acc best street_after_none after1
  have "(\<exists>st' s'. loop_body street_globals street_maps (1 / 2) street_start street_rng
        = Some (Inr (st', s')) \<and>
      bestScore street_start \<le> bestScore st' \<and> bestScore st' = - 2 / 3 \<and>
      bestGrid st' = swap_cells (grid street_start) (0, 2) (0, 3))"
    "bestScore (fst (street_start, street_rng)) \<le> bestScore (fst (street_swapped, sconst 0::nat stream))"
    by auto
  with street_picks street_candidate_score acc best street_after_none after1 show ?thesis
    by blast
qed

section \<open>Termination of the cooling schedule\<close>

lemma for_loop_returns:
  assumes "\<And>i acc. i \<in> set is \<Longrightarrow> \<exists>v. body i acc = Inr v"
  shows "\<exists>v. for_loop is body acc = Inr v"
  using assms
proof (induction "is" arbitrary: acc)
  case Nil
  then show ?case by simp
next
  case (Cons i "is")
  from Cons.prems [of i acc] obtain v where "body i acc = Inr v" by auto
  moreover from Cons.IH [of v] Cons.prems obtain w where "for_loop is body v = Inr w" by auto
  ultimately show ?case by simp
qed

lemma calculateScore_returns:
  assumes "\<forall>lu \<in> set landUseTypes. distanceMaps lu \<noteq> None"
  shows "\<exists>v. calculateScore G g distanceMaps = Inr v"
  unfolding calculateScore_def
proof (intro for_loop_returns)
  fix i j acc
  have kth: "\<exists>v. score_term distanceMaps prefs i j k a = Inr v"
    if "k \<in> set [0..<length landUseTypes]" for k a prefs
  proof -
    from that have "landUseTypes ! k \<in> set landUseTypes" by simp
    with assms obtain dm where "distanceMaps (landUseTypes ! k) = Some dm" by blast
    then show ?thesis by (simp add: score_term_def Let_def)
  qed
  show "\<exists>v. score_cell G g distanceMaps i j acc = Inr v"
  proof (cases "is_agent (g ! i ! j)")
    case False
    then show ?thesis by (simp add: score_cell_def)
  next
    case True
    from for_loop_returns [of "[0..<length landUseTypes]"
        "score_term distanceMaps (preferences_of G (g ! i ! j)) i j" 0, OF kth]
    obtain v where "for_loop [0..<length landUseTypes]
        (score_term distanceMaps (preferences_of G (g ! i ! j)) i j) 0 = Inr v" by blast
    with True show ?thesis by (simp add: score_cell_def)
  qed
qed

lemma pick_agent_agents_only:
  assumes "pick_agent G g s = Some r"
  shows "0 < ROWS G \<longrightarrow> 0 < COLS G \<longrightarrow>
         (\<forall>i < ROWS G. \<forall>j < COLS G. is_agent (g' ! i ! j) \<longleftrightarrow> is_agent (g ! i ! j)) \<longrightarrow>
         pick_agent G g' s = Some r"
proof (induction rule: pick_agent.raw_induct [OF _ assms])
  case (1 pick G g s r)
  show ?case
  proof (intro impI)
    assume pos: "0 < ROWS G" "0 < COLS G"
      and same: "\<forall>i < ROWS G. \<forall>j < COLS G. is_agent (g' ! i ! j) \<longleftrightarrow> is_agent (g ! i ! j)"
    let ?x = "shd s mod ROWS G" and ?y = "shd (stl s) mod COLS G"
    from pos have "?x < ROWS G" "?y < COLS G" by simp_all
    with same have eq: "is_agent (g' ! ?x ! ?y) \<longleftrightarrow> is_agent (g ! ?x ! ?y)" by blast
    show "pick_agent G g' s = Some r"
    proof (cases "is_agent (g ! ?x ! ?y)")
      case True
      with 1(2) have "r = ((?x, ?y), stl (stl s))" by (simp add: rand_def Let_def)
      with True eq show ?thesis
        by (subst pick_agent.simps) (simp add: rand_def Let_def)
    next
      case False
      with 1(2) have "pick G g (stl (stl s)) = Some r" by (simp add: rand_def Let_def)
      from 1(1) [OF this] pos same have "pick_agent G g' (stl (stl s)) = Some r" by blast
      with False eq show ?thesis
        by (subst pick_agent.simps) (simp add: rand_def Let_def)
    qed
  qed
qed

lemma after_iterations_Suc:
  "after_iterations G distanceMaps cooldown coolingRate (Suc n) sr =
     (case after_iterations G distanceMaps cooldown coolingRate n sr of
        None \<Rightarrow> None
      | Some sr1 \<Rightarrow> after_iterations G distanceMaps cooldown coolingRate (Suc 0) sr1)"
proof (induction n arbitrary: sr)
  case 0
  show ?case by (simp split: option.splits sum.splits)
next
  case (Suc n)
  show ?case
  proof (cases "cooldown < temperature (fst sr)")
    case False
    then show ?thesis by simp
  next
    case True
    show ?thesis
    proof (cases "loop_body G distanceMaps coolingRate (fst sr) (snd sr)")
      case None
      with True show ?thesis by simp
    next
      case (Some res)
      show ?thesis
      proof (cases res)
        case (Inl e)
        with True Some show ?thesis by simp
      next
        case (Inr sr1)
        have "after_iterations G distanceMaps cooldown coolingRate (Suc (Suc n)) sr
              = after_iterations G distanceMaps cooldown coolingRate (Suc n) sr1"
          using True Some Inr by simp
        also have "\<dots> = (case after_iterations G distanceMaps cooldown coolingRate n sr1 of
              None \<Rightarrow> None
            | Some sr2 \<Rightarrow> after_iterations G distanceMaps cooldown coolingRate (Suc 0) sr2)"
          by (rule Suc.IH)
        also have "after_iterations G distanceMaps cooldown coolingRate n sr1
              = after_iterations G distanceMaps cooldown coolingRate (Suc n) sr"
          using True Some Inr by simp
        finally show ?thesis .
      qed
    qed
  qed
qed

lemma cooled_Suc:
  "cooled G coolingRate (Suc n) temp = cooled G coolingRate n (fmul G temp (fsub G 1 coolingRate))"
proof -
  have "(f ^^ Suc n) t = (f ^^ n) (f t)" for f :: "real \<Rightarrow> real" and t
    by (simp add: funpow_swap1)
  then show ?thesis unfolding cooled_def .
qed

lemma cooled_exact:
  assumes "fmul G = (*)" "fsub G = (-)"
  shows "cooled G coolingRate n temp = temp * (1 - coolingRate) ^ n"
  by (induction n) (simp_all add: cooled_def assms)

lemma loop_body_cools:
  assumes "loop_body G distanceMaps coolingRate st s = Some (Inr (st', s'))"
  shows "temperature st' = fmul G (temperature st) (fsub G 1 coolingRate)"
    "iteration st' = Suc (iteration st)"
proof -
  from assms obtain p1 s2 p2 newScore where
    "st' = cool G coolingRate
             (if fst (accept_move G (fsub G newScore (currentScore st)) (temperature st) s2)
              then accept_update st (swap_cells (grid st) p1 p2) newScore else st)"
    by (rule loop_body_cases)
  then show "temperature st' = fmul G (temperature st) (fsub G 1 coolingRate)"
    "iteration st' = Suc (iteration st)"
    by (simp_all add: cool_def accept_update_def Let_def)
qed

lemma after_iterations_cools:
  assumes "after_iterations G distanceMaps cooldown coolingRate n sr = Some sr'"
  shows "temperature (fst sr') = cooled G coolingRate n (temperature (fst sr)) \<and>
         iteration (fst sr') = iteration (fst sr) + n \<and>
         (\<forall>m < n. cooldown < cooled G coolingRate m (temperature (fst sr)))"
  using assms
proof (induction n arbitrary: sr)
  case 0
  then show ?case by (simp add: cooled_def)
next
  case (Suc n)
  from Suc.prems obtain sr1 where
    hot: "cooldown < temperature (fst sr)" and
    body: "loop_body G distanceMaps coolingRate (fst sr) (snd sr) = Some (Inr sr1)" and
    rest: "after_iterations G distanceMaps cooldown coolingRate n sr1 = Some sr'"
    by (auto split: if_splits option.splits sum.splits)
  from body have "loop_body G distanceMaps coolingRate (fst sr) (snd sr)
      = Some (Inr (fst sr1, snd sr1))" by simp
  note step = loop_body_cools [OF this]
  note ih = Suc.IH [OF rest]
  have "cooldown < cooled G coolingRate m (temperature (fst sr))" if "m < Suc n" for m
  proof (cases m)
    case 0
    with hot show ?thesis by (simp add: cooled_def)
  next
    case (Suc m')
    with that ih step show ?thesis by (simp add: cooled_Suc)
  qed
  with ih step show ?case by (simp add: cooled_Suc)
qed

lemma after_iterations_anneal_loop:
  assumes "after_iterations G distanceMaps cooldown coolingRate n sr = Some sr'"
    and "\<not> cooldown < temperature (fst sr')"
  shows "anneal_loop G distanceMaps cooldown coolingRate sr = Some (Inr sr')"
  using assms
proof (induction n arbitrary: sr)
  case 0
  then show ?case by (subst anneal_loop.simps) simp
next
  case (Suc n)
  from Suc.prems(1) obtain sr1 where
    hot: "cooldown < temperature (fst sr)" and
    body: "loop_body G distanceMaps coolingRate (fst sr) (snd sr) = Some (Inr sr1)" and
    rest: "after_iterations G distanceMaps cooldown coolingRate n sr1 = Some sr'"
    by (auto split: if_splits option.splits sum.splits)
  from Suc.IH [OF rest Suc.prems(2)] hot body show ?case
    by (subst anneal_loop.simps) simp
qed

lemma schedule_threshold:
  assumes "0 < temp" "0 < cooldown" "cooldown < temp" "0 < coolingRate" "coolingRate < 1"
  shows "temp * (1 - coolingRate) ^ n \<le> cooldown
         \<longleftrightarrow> iterations_needed temp cooldown coolingRate \<le> n"
proof -
  let ?q = "1 - coolingRate"
  from assms have q: "0 < ?q" "?q < 1" by simp_all
  then have lnq: "ln ?q < 0" by simp
  from assms have ratio: "0 < cooldown / temp" by simp
  have "temp * ?q ^ n \<le> cooldown \<longleftrightarrow> ?q ^ n \<le> cooldown / temp"
    using assms(1) by (simp add: pos_le_divide_eq mult.commute)
  also have "\<dots> \<longleftrightarrow> ln (?q ^ n) \<le> ln (cooldown / temp)"
    using q(1) ratio by (simp add: ln_le_cancel_iff)
  also have "\<dots> \<longleftrightarrow> real n * ln ?q \<le> ln (cooldown / temp)"
    using q(1) by (simp add: ln_realpow)
  also have "\<dots> \<longleftrightarrow> ln (cooldown / temp) / ln ?q \<le> real n"
    using lnq by (simp add: neg_divide_le_eq)
  also have "\<dots> \<longleftrightarrow> \<lceil>ln (cooldown / temp) / ln ?q\<rceil> \<le> int n"
    by (simp add: ceiling_le_iff)
  also have "\<dots> \<longleftrightarrow> iterations_needed temp cooldown coolingRate \<le> n"
    by (simp add: iterations_needed_def nat_le_iff)
  finally show ?thesis .
qed

lemma loop_body_returns:
  assumes inv: "state_inv G g0 st" and pos: "0 < ROWS G" "0 < COLS G"
    and sel: "selection_returns G g0 s"
    and keys: "\<forall>lu \<in> set landUseTypes. distanceMaps lu \<noteq> None"
  shows "\<exists>st' k'. loop_body G distanceMaps coolingRate st (sdrop k s) = Some (Inr (st', sdrop k' s))"
proof -
  from inv have same: "\<forall>i < ROWS G. \<forall>j < COLS G. is_agent (grid st ! i ! j) \<longleftrightarrow> is_agent (g0 ! i ! j)"
    by (simp add: state_inv_def grid_inv_def)
  have pick: "\<exists>p k'. pick_agent G (grid st) (sdrop k s) = Some (p, sdrop k' s)" for k
  proof -
    from sel obtain r where r: "pick_agent G g0 (sdrop k s) = Some r"
      unfolding selection_returns_def by blast
    then have "pick_agent G g0 (sdrop k s) = Some ((fst (fst r), snd (fst r)), snd r)" by simp
    from pick_agent_sound(4) [OF this pos] obtain m where "snd r = sdrop m (sdrop k s)" by blast
    then have "snd r = sdrop (k + m) s" by (simp add: sdrop_add)
    moreover from pick_agent_agents_only [OF r, of "grid st"] pos same
    have "pick_agent G (grid st) (sdrop k s) = Some (fst r, snd r)" by simp
    ultimately show ?thesis by auto
  qed
  from pick [of k] obtain p1 k1 where
    p1: "pick_agent G (grid st) (sdrop k s) = Some (p1, sdrop k1 s)" by blast
  from pick [of k1] obtain p2 k2 where
    p2: "pick_agent G (grid st) (sdrop k1 s) = Some (p2, sdrop k2 s)" by blast
  from calculateScore_returns [OF keys] obtain newScore where
    sc: "calculateScore G (swap_cells (grid st) p1 p2) distanceMaps = Inr newScore" by blast
  have "snd (accept_move G d t (sdrop k2 s)) = sdrop k2 s \<or>
        snd (accept_move G d t (sdrop k2 s)) = sdrop (Suc k2) s" for d t
    by (simp add: accept_move_def rand_def)
  then show ?thesis
    unfolding loop_body_eval [OF p1 p2 sc] by (metis (no_types, lifting))
qed

lemma run_reaches:
  assumes wf: "well_formed G g0" and pos: "0 < ROWS G" "0 < COLS G"
    and keys: "\<forall>lu \<in> set landUseTypes. distanceMaps lu \<noteq> None"
    and sel: "selection_returns G g0 s"
    and hot: "\<forall>m < n. cooldown < cooled G coolingRate m temp"
  shows "\<exists>st k. after_iterations G distanceMaps cooldown coolingRate n (initial_state g0 score temp, s)
           = Some (st, sdrop k s) \<and> state_inv G g0 st"
  using hot
proof (induction n)
  case 0
  have "after_iterations G distanceMaps cooldown coolingRate 0 (initial_state g0 score temp, s)
        = Some (initial_state g0 score temp, sdrop 0 s)" by simp
  with state_inv_initial [OF wf] show ?case by blast
next
  case (Suc n)
  then obtain st k where
    run: "after_iterations G distanceMaps cooldown coolingRate n (initial_state g0 score temp, s)
           = Some (st, sdrop k s)" and inv: "state_inv G g0 st" by auto
  from after_iterations_cools [OF run]
  have "temperature st = cooled G coolingRate n temp" by (simp add: initial_state_def)
  with Suc.prems have hot: "cooldown < temperature st" by simp
  from loop_body_returns [OF inv pos sel keys] obtain st' k' where
    body: "loop_body G distanceMaps coolingRate st (sdrop k s) = Some (Inr (st', sdrop k' s))"
    by blast
  from loop_body_state_inv [OF inv pos body] have inv': "state_inv G g0 st'" .
  have "after_iterations G distanceMaps cooldown coolingRate (Suc n) (initial_state g0 score temp, s)
        = Some (st', sdrop k' s)"
    unfolding after_iterations_Suc [of _ _ _ _ n] run using hot body by simp
  with inv' show ?case by blast
qed

lemma distance_fields_present:
  "distance_fields G distanceMaps \<Longrightarrow> \<forall>lu \<in> set landUseTypes. distanceMaps lu \<noteq> None"
  unfolding distance_fields_def by fastforce

lemma loop_body_no_error:
  assumes "\<forall>lu \<in> set landUseTypes. distanceMaps lu \<noteq> None"
  shows "loop_body G distanceMaps coolingRate st s \<noteq> Some (Inl e)"
proof
  assume "loop_body G distanceMaps coolingRate st s = Some (Inl e)"
  then obtain g' where "calculateScore G g' distanceMaps = Inl e"
    unfolding loop_body_def by (auto simp: Let_def split: option.splits sum.splits)
  with calculateScore_returns [OF assms, of G g'] show False by auto
qed

lemma anneal_loop_stalls:
  assumes "anneal_loop G distanceMaps cooldown coolingRate sr = Some res"
  shows "(\<forall>lu \<in> set landUseTypes. distanceMaps lu \<noteq> None) \<longrightarrow>
         fmul G t (fsub G 1 coolingRate) = t \<longrightarrow> cooldown < t \<longrightarrow> temperature (fst sr) \<noteq> t"
proof (induction rule: anneal_loop.raw_induct [OF _ assms])
  case (1 loop G distanceMaps cooldown coolingRate sr res)
  show ?case
  proof (intro impI notI)
    assume keys: "\<forall>lu \<in> set landUseTypes. distanceMaps lu \<noteq> None"
      and stay: "fmul G t (fsub G 1 coolingRate) = t" and hot: "cooldown < t"
      and t: "temperature (fst sr) = t"
    from loop_body_no_error [OF keys]
    have "loop_body G distanceMaps coolingRate (fst sr) (snd sr) \<noteq> Some (Inl e)" for e .
    with 1(2) hot t obtain sr1 where
      body: "loop_body G distanceMaps coolingRate (fst sr) (snd sr) = Some (Inr sr1)" and
      rest: "loop G distanceMaps cooldown coolingRate sr1 = Some res"
      by (auto split: option.splits sum.splits)
    from body have "loop_body G distanceMaps coolingRate (fst sr) (snd sr)
        = Some (Inr (fst sr1, snd sr1))" by simp
    from loop_body_cools(1) [OF this] t stay have "temperature (fst sr1) = t" by simp
    with 1(1) [OF rest] keys stay hot show False by blast
  qed
qed

text \<open>
  C8, as amended. The loop stops when \<open>T \<le> Tmin\<close>. Whenever it terminates, the number of
  iterations is the least \<open>n\<close> for which \<open>n\<close> cooling steps \<open>T \<leftarrow> T (1 - r)\<close>, as the platform
  computes them, bring \<open>T0\<close> to \<open>Tmin\<close> or below: it is determined by \<open>T0\<close>, \<open>Tmin\<close> and \<open>r\<close>,
  whatever the scores, the grid and the draws were. The loop does terminate, and
  \<open>optimiseGrid\<close> returns, if some number of cooling steps brings \<open>T0\<close> to \<open>Tmin\<close> or below,
  every selection loop comes to an end (which needs an agent cell on the grid and a
  generator that reaches one), and grid, distance maps and preference table are well
  formed. In exact arithmetic, for \<open>0 < Tmin < T0\<close> and \<open>0 < r < 1\<close>, \<open>n\<close> cooling steps reach
  \<open>Tmin\<close> exactly when \<open>n \<ge> \<lceil>ln (Tmin / T0) / ln (1 - r)\<rceil>\<close>.
\<close>

theorem cooling_schedule_terminates:
  "(anneal_loop G distanceMaps cooldown coolingRate (initial_state g0 score temp, s)
      = Some (Inr (st1, s1)) \<longrightarrow>
      temperature st1 = cooled G coolingRate (iteration st1) temp \<and>
      temperature st1 \<le> cooldown \<and>
      (\<forall>m < iteration st1. cooldown < cooled G coolingRate m temp)) \<and>
   (well_formed G g0 \<and> 0 < ROWS G \<and> 0 < COLS G \<and> distance_fields G distanceMaps \<and>
    preferences_cover G g0 \<and> selection_returns G g0 s \<and>
    cooled G coolingRate n temp \<le> cooldown \<longrightarrow>
      (\<exists>st s'. anneal_loop G distanceMaps cooldown coolingRate (initial_state g0 score temp, s)
                  = Some (Inr (st, s')) \<and> iteration st \<le> n) \<and>
      (\<exists>g' s'. optimiseGrid G g0 distanceMaps temp cooldown coolingRate s
                  = Some (Inr (g', s')))) \<and>
   (fmul G = (*) \<and> fsub G = (-) \<and> 0 < cooldown \<and> cooldown < temp \<and>
    0 < coolingRate \<and> coolingRate < 1 \<longrightarrow>
      (cooled G coolingRate n temp \<le> cooldown
         \<longleftrightarrow> iterations_needed temp cooldown coolingRate \<le> n))"
proof (intro conjI impI)
  assume loop: "anneal_loop G distanceMaps cooldown coolingRate (initial_state g0 score temp, s)
            = Some (Inr (st1, s1))"
  from anneal_loop_after_iterations [OF loop] obtain k where
    run: "after_iterations G distanceMaps cooldown coolingRate k (initial_state g0 score temp, s)
          = Some (st1, s1)" and cold: "\<not> cooldown < temperature (fst (st1, s1))" by blast
  from after_iterations_cools [OF run]
  have k: "iteration st1 = k" and t: "temperature st1 = cooled G coolingRate k temp"
    and hot: "\<forall>m < k. cooldown < cooled G coolingRate m temp"
    by (simp_all add: initial_state_def)
  from t k show "temperature st1 = cooled G coolingRate (iteration st1) temp" by simp
  from cold show "temperature st1 \<le> cooldown" by simp
  from hot k show "\<forall>m < iteration st1. cooldown < cooled G coolingRate m temp" by simp
next
  assume *: "well_formed G g0 \<and> 0 < ROWS G \<and> 0 < COLS G \<and> distance_fields G distanceMaps \<and>
    preferences_cover G g0 \<and> selection_returns G g0 s \<and>
    cooled G coolingRate n temp \<le> cooldown"
  then have keys: "\<forall>lu \<in> set landUseTypes. distanceMaps lu \<noteq> None"
    using distance_fields_present by blast
  define N where "N = (LEAST k. cooled G coolingRate k temp \<le> cooldown)"
  from * have cold: "cooled G coolingRate N temp \<le> cooldown"
    unfolding N_def by (metis (mono_tags, lifting) LeastI)
  from * have le: "N \<le> n" unfolding N_def by (simp add: Least_le)
  have hot: "\<forall>m < N. cooldown < cooled G coolingRate m temp"
    unfolding N_def using not_less_Least by fastforce
  have loop: "\<exists>st s'. anneal_loop G distanceMaps cooldown coolingRate (initial_state g0 sc temp, s)
                        = Some (Inr (st, s')) \<and> iteration st \<le> n" for sc
  proof -
    from * run_reaches [OF _ _ _ keys _ hot, of g0 s sc] obtain st k where
      run: "after_iterations G distanceMaps cooldown coolingRate N (initial_state g0 sc temp, s)
           = Some (st, sdrop k s)" by auto
    from after_iterations_cools [OF run]
    have t: "temperature st = cooled G coolingRate N temp" and i: "iteration st = N"
      by (simp_all add: initial_state_def)
    from t cold have "\<not> cooldown < temperature (fst (st, sdrop k s))" by simp
    from after_iterations_anneal_loop [OF run this] i le show ?thesis by blast
  qed
  from loop [of score]
  show "\<exists>st s'. anneal_loop G distanceMaps cooldown coolingRate (initial_state g0 score temp, s)
                        = Some (Inr (st, s')) \<and> iteration st \<le> n" .
  from calculateScore_returns [OF keys, of G g0] obtain sc where
    sc: "calculateScore G g0 distanceMaps = Inr sc" by blast
  from loop [of sc] obtain st s' where
    "anneal_loop G distanceMaps cooldown coolingRate (initial_state g0 sc temp, s) = Some (Inr (st, s'))"
    by blast
  with sc show "\<exists>g' s'. optimiseGrid G g0 distanceMaps temp cooldown coolingRate s
                        = Some (Inr (g', s'))"
    by (simp add: optimiseGrid_def)
next
  assume *: "fmul G = (*) \<and> fsub G = (-) \<and> 0 < cooldown \<and> cooldown < temp \<and>
    0 < coolingRate \<and> coolingRate < 1"
  then have "cooled G coolingRate n temp = temp * (1 - coolingRate) ^ n"
    by (simp add: cooled_exact)
  moreover from * have "0 < temp" by simp
  ultimately show "cooled G coolingRate n temp \<le> cooldown
         \<longleftrightarrow> iterations_needed temp cooldown coolingRate \<le> n"
    using * schedule_threshold [of temp cooldown coolingRate n] by simp
qed

lemma sdrop_zero_rng: "sdrop k zero_rng = zero_rng"
  by (induction k) (simp_all add: zero_rng_def)

lemma pair_selection_returns: "selection_returns pair_globals pair_grid zero_rng"
  by (simp add: selection_returns_def sdrop_zero_rng pair_pick_zero)

lemma pair_distance_fields: "distance_fields pair_globals pair_maps"
  by (simp add: distance_fields_def well_formed_def pair_maps_def landUseTypes_def DBL_MAX_def)

lemma pair_preferences_cover: "preferences_cover pair_globals pair_grid"
  by (simp add: preferences_cover_def pair_grid_def program_globals_def landUseTypes_def)

lemma pair_well_formed: "well_formed pair_globals pair_grid"
  by (simp add: well_formed_def pair_grid_def)

lemma pair_self_swap: "swap_cells pair_grid (0, 0) (0, 0) = pair_grid"
  by (simp add: swap_cells_def set_cell_def pair_grid_def)

lemma pair_body_zero:
  "loop_body pair_globals pair_maps (1 / 2) pair_start zero_rng
   = Some (Inr (cool pair_globals (1 / 2) pair_start, zero_rng))"
proof -
  have 1: "pick_agent pair_globals (grid pair_start) zero_rng = Some ((0, 0), zero_rng)"
    by (simp add: pair_pick_zero)
  have 3: "calculateScore pair_globals (swap_cells (grid pair_start) (0, 0) (0, 0)) pair_maps = Inr 0"
    by (rule pair_score)
  have "accept_update pair_start pair_grid 0 = pair_start"
    by (simp add: accept_update_def pair_start_def initial_state_def)
  then show ?thesis
    unfolding loop_body_eval [OF 1 1 3]
    by (simp add: pair_self_swap accept_move_def rand_def zero_rng_def)
qed

lemma pair_loop_zero:
  "anneal_loop pair_globals pair_maps 1 (1 / 2) (initial_state pair_grid 0 2, zero_rng)
   = Some (Inr (cool pair_globals (1 / 2) pair_start, zero_rng))"
proof -
  have "anneal_loop pair_globals pair_maps 1 (1 / 2) (cool pair_globals (1 / 2) pair_start, zero_rng)
        = Some (Inr (cool pair_globals (1 / 2) pair_start, zero_rng))"
    by (subst anneal_loop.simps) (simp add: cool_def)
  then have "anneal_loop pair_globals pair_maps 1 (1 / 2) (pair_start, zero_rng)
        = Some (Inr (cool pair_globals (1 / 2) pair_start, zero_rng))"
    by (subst anneal_loop.simps) (simp add: pair_body_zero)
  then show ?thesis unfolding pair_start_def .
qed

lemma pair_cooled:
  "cooled pair_globals (1 / 2) 0 2 = 2" "cooled pair_globals (1 / 2) (Suc 0) 2 = 1"
  by (simp_all add: cooled_def)

lemma pair_exact: "fmul pair_globals = (*)" "fsub pair_globals = (-)"
  by (simp_all add: fun_eq_iff)

theorem cooling_schedule_terminates_witness:
  "anneal_loop pair_globals pair_maps 1 (1 / 2) (initial_state pair_grid 0 2, zero_rng)
     = Some (Inr (cool pair_globals (1 / 2) pair_start, zero_rng)) \<and>
   iteration (cool pair_globals (1 / 2) pair_start) = Suc 0 \<and>
   temperature (cool pair_globals (1 / 2) pair_start) = cooled pair_globals (1 / 2) (Suc 0) 2 \<and>
   temperature (cool pair_globals (1 / 2) pair_start) \<le> 1 \<and>
   1 < cooled pair_globals (1 / 2) 0 2 \<and>
   well_formed pair_globals pair_grid \<and> 0 < ROWS pair_globals \<and> 0 < COLS pair_globals \<and>
   distance_fields pair_globals pair_maps \<and> preferences_cover pair_globals pair_grid \<and>
   selection_returns pair_globals pair_grid zero_rng \<and>
   cooled pair_globals (1 / 2) (Suc 0) 2 \<le> 1 \<and>
   (\<exists>st s'. anneal_loop pair_globals pair_maps 1 (1 / 2) (initial_state pair_grid 0 2, zero_rng)
      = Some (Inr (st, s')) \<and> iteration st \<le> Suc 0) \<and>
   (\<exists>g' s'. optimiseGrid pair_globals pair_grid pair_maps 2 1 (1 / 2) zero_rng
      = Some (Inr (g', s'))) \<and>
   fmul pair_globals = (*) \<and> fsub pair_globals = (-) \<and>
   (0::real) < 1 \<and> (1::real) < 2 \<and> (0::real) < 1 / 2 \<and> (1 / 2 :: real) < 1 \<and>
   iterations_needed 2 1 (1 / 2) \<le> Suc 0"
proof -
  have sched: "(0::real) < 1" "(1::real) < 2" "(0::real) < 1 / 2" "(1 / 2 :: real) < 1"
    by simp_all
  have pos: "0 < ROWS pair_globals" "0 < COLS pair_globals" by simp_all
  have it: "iteration (cool pair_globals (1 / 2) pair_start) = Suc 0" by (simp add: cool_def)
  have cold: "cooled pair_globals (1 / 2) (Suc 0) 2 \<le> 1" and hot: "1 < cooled pair_globals (1 / 2) 0 2"
    by (simp_all add: pair_cooled)
  note inst = cooling_schedule_terminates [where G = pair_globals and ?g0.0 = pair_grid
      and distanceMaps = pair_maps and s = zero_rng and score = 0 and temp = 2 and cooldown = 1
      and coolingRate = "1 / 2" and n = "Suc 0"
      and ?st1.0 = "cool pair_globals (1 / 2) pair_start" and ?s1.0 = zero_rng]
  from inst pair_loop_zero it
  have a: "temperature (cool pair_globals (1 / 2) pair_start) = cooled pair_globals (1 / 2) (Suc 0) 2"
    "temperature (cool pair_globals (1 / 2) pair_start) \<le> 1"
    by simp_all
  from inst pair_well_formed pos pair_distance_fields pair_preferences_cover
    pair_selection_returns cold
  have b: "\<exists>st s'. anneal_loop pair_globals pair_maps 1 (1 / 2) (initial_state pair_grid 0 2, zero_rng)
      = Some (Inr (st, s')) \<and> iteration st \<le> Suc 0"
    "\<exists>g' s'. optimiseGrid pair_globals pair_grid pair_maps 2 1 (1 / 2) zero_rng
      = Some (Inr (g', s'))"
    by blast+
  from inst pair_exact sched cold
  have c: "iterations_needed 2 1 (1 / 2) \<le> Suc 0" by blast
  from pair_loop_zero it a hot pair_well_formed pos pair_distance_fields pair_preferences_cover
    pair_selection_returns cold b pair_exact sched c
  show ?thesis by blast
qed

lemma stalled_rounds: "fsub stalled_globals 1 (1 / 2 ^ 60) = 1"
  unfolding stalled_globals_def by simp

lemma stalled_globals_simps [simp]:
  "ROWS stalled_globals = 1" "COLS stalled_globals = 2" "RAND_MAX stalled_globals = 32767"
  "fmul stalled_globals a b = a * b"
  by (simp_all add: stalled_globals_def)

lemma stalled_fields_present: "\<forall>lu \<in> set landUseTypes. pair_maps lu \<noteq> None"
  by (simp add: pair_maps_def landUseTypes_def)

lemma stalled_no_return:
  "optimiseGrid stalled_globals pair_grid pair_maps 2 1 (1 / 2 ^ 60) zero_rng = None"
proof -
  have stay: "fmul stalled_globals 2 (fsub stalled_globals 1 (1 / 2 ^ 60)) = 2"
    unfolding stalled_rounds by simp
  have "anneal_loop stalled_globals pair_maps 1 (1 / 2 ^ 60) (initial_state pair_grid sc 2, zero_rng)
        = None" for sc
  proof (cases "anneal_loop stalled_globals pair_maps 1 (1 / 2 ^ 60)
        (initial_state pair_grid sc 2, zero_rng)")
    case None
    then show ?thesis .
  next
    case (Some res)
    from anneal_loop_stalls [OF Some, of 2] stay stalled_fields_present show ?thesis
      by (simp add: initial_state_def)
  qed
  moreover from calculateScore_returns [OF stalled_fields_present, of stalled_globals pair_grid]
  obtain sc where "calculateScore stalled_globals pair_grid pair_maps = Inr sc" by blast
  ultimately show ?thesis
    by (simp add: optimiseGrid_def)
qed

text \<open>
  Parameters in the ranges of C8 for which the loop does not terminate. On the row without
  agents the first selection never ends. On the two agents, with \<open>r = 2\<^sup>-\<^sup>6\<^sup>0\<close> and a
  subtraction that rounds \<open>1 - r\<close> to 1, every selection returns, but the temperature stays
  at 2 and never falls to the threshold 1.
\<close>

theorem no_agents_no_termination:
  "(0::real) < 2 \<and> (0::real) < 1 \<and> (1::real) < 2 \<and> (0::real) < 1 / 2 \<and> (1 / 2 :: real) < 1 \<and>
   optimiseGrid pair_globals bare_grid pair_maps 2 1 (1 / 2) swap_rng = None \<and>
   (0::real) < 1 / 2 ^ 60 \<and> (1 / 2 ^ 60 :: real) < 1 \<and>
   fsub stalled_globals 1 (1 / 2 ^ 60) = 1 \<and>
   optimiseGrid stalled_globals pair_grid pair_maps 2 1 (1 / 2 ^ 60) zero_rng = None"
proof -
  have "optimiseGrid pair_globals bare_grid pair_maps 2 1 (1 / 2) swap_rng = None"
    using bare_no_agents by (simp add: optimiseGrid_no_agents)
  moreover have "(0::real) < 1 / 2 ^ 60" "(1 / 2 ^ 60 :: real) < 1" by simp_all
  ultimately show ?thesis using stalled_rounds stalled_no_return by simp
qed

section \<open>Correctness of the DistanceField builder\<close>

subsection \<open>Cells, entries of the distance map, and the measure\<close>

lemma inside_nat:
  assumes "inside G c"
  shows "nat (fst c) < ROWS G" "nat (snd c) < COLS G"
  using assms by (simp_all add: inside_def nat_less_iff)

lemma inside_eq_iff:
  assumes "inside G a" "inside G b"
  shows "a = b \<longleftrightarrow> nat (fst a) = nat (fst b) \<and> nat (snd a) = nat (snd b)"
  using assms by (auto simp: inside_def prod_eq_iff)

lemma dist_at_set_cell:
  assumes "well_formed G dm" "inside G n" "inside G c"
  shows "dist_at (set_cell dm (nat (fst n)) (nat (snd n)) v) c = (if c = n then v else dist_at dm c)"
  unfolding dist_at_def
  using nth_set_cell [OF assms(1) inside_nat [OF assms(2)] inside_nat [OF assms(3)]]
    inside_eq_iff [OF assms(3,2)]
  by simp

lemma sum_list_update_nat:
  "k < length xs \<Longrightarrow> sum_list (xs[k := y]) + xs ! k = sum_list xs + (y::nat)"
proof (induction xs arbitrary: k)
  case Nil
  then show ?case by simp
next
  case (Cons x xs)
  then show ?case by (cases k) (simp_all add: add.assoc add.left_commute)
qed

lemma sum_map_set_cell:
  fixes f :: "real \<Rightarrow> nat"
  assumes wf: "well_formed G dm" and i: "i < ROWS G" and j: "j < COLS G"
  shows "sum_list (map f (concat (set_cell dm i j v))) + f (dm ! i ! j)
         = sum_list (map f (concat dm)) + f v"
proof -
  from wf have rect: "\<forall>row \<in> set dm. length row = COLS G" and len: "length dm = ROWS G"
    by (simp_all add: well_formed_def)
  let ?k = "i * COLS G + j"
  have k: "?k < length (map f (concat dm))"
    using i j by (simp add: length_concat_rect [OF rect] len cell_index_less)
  have "map f (concat (set_cell dm i j v)) = (map f (concat dm))[?k := f v]"
    using i j len by (simp add: concat_set_cell [OF rect] map_update)
  moreover have "map f (concat dm) ! ?k = f (dm ! i ! j)"
    using k i j len by (simp add: nth_concat_cell [OF rect])
  ultimately show ?thesis using sum_list_update_nat [OF k, of "f v"] by simp
qed

lemma cell_in_concat:
  assumes wf: "well_formed G dm" and c: "inside G c"
  shows "dist_at dm c \<in> set (concat dm)"
proof -
  from wf have len: "length dm = ROWS G" and rect: "\<forall>row \<in> set dm. length row = COLS G"
    by (simp_all add: well_formed_def)
  from inside_nat [OF c] len have "dm ! nat (fst c) \<in> set dm" by simp
  moreover with rect inside_nat [OF c] have "dm ! nat (fst c) ! nat (snd c) \<in> set (dm ! nat (fst c))"
    by simp
  ultimately show ?thesis unfolding dist_at_def by auto
qed

lemma reached_count_le:
  assumes "well_formed G dm"
  shows "reached_count dm \<le> ROWS G * COLS G"
proof -
  have "sum_list (map (\<lambda>v. if v = DBL_MAX then 0 else 1) xs) \<le> length xs" for xs :: "real list"
    by (induction xs) simp_all
  from this [of "concat dm"] assms show ?thesis
    unfolding reached_count_def
    by (simp add: length_concat_rect [of dm "COLS G"] well_formed_def)
qed

lemma reached_count_pos:
  assumes "well_formed G dm" "inside G c" "dist_at dm c \<noteq> DBL_MAX"
  shows "0 < reached_count dm"
proof -
  have "x \<in> set xs \<Longrightarrow> x \<noteq> DBL_MAX \<Longrightarrow>
        0 < sum_list (map (\<lambda>v. if v = DBL_MAX then 0 else (1::nat)) xs)"
    for x and xs :: "real list"
    by (induction xs) auto
  from this [OF cell_in_concat [OF assms(1,2)] assms(3)] show ?thesis
    unfolding reached_count_def by simp
qed

lemma reached_count_set_cell:
  assumes wf: "well_formed G dm" and n: "inside G n" and v: "v \<noteq> DBL_MAX"
  shows "reached_count (set_cell dm (nat (fst n)) (nat (snd n)) v)
         = (if dist_at dm n = DBL_MAX then Suc (reached_count dm) else reached_count dm)"
  using sum_map_set_cell [OF wf inside_nat [OF n], of "\<lambda>v. if v = DBL_MAX then 0 else 1" v] v
  unfolding reached_count_def dist_at_def by (simp split: if_splits)

lemma below_sentinel:
  assumes "ROWS G * COLS G < 2 ^ 53" "k \<le> ROWS G * COLS G"
  shows "real k + 1 < DBL_MAX"
proof -
  from assms have "k < 2 ^ 53" by simp
  then have "real k < real (2 ^ 53)" by (simp only: of_nat_less_iff)
  then have "real k < 2 ^ 53" by simp
  moreover have "(2::real) ^ 53 + 1 < DBL_MAX" by (simp add: DBL_MAX_def)
  ultimately show ?thesis by simp
qed

lemma weight_reached: "real k \<noteq> DBL_MAX \<Longrightarrow> weight G (real k) = k"
  by (simp add: weight_def)

lemma total_weight_set_cell:
  assumes wf: "well_formed G dm" and n: "inside G n"
  shows "total_weight G (set_cell dm (nat (fst n)) (nat (snd n)) v) + weight G (dist_at dm n)
         = total_weight G dm + weight G v"
  using sum_map_set_cell [OF wf inside_nat [OF n], of "weight G" v]
  unfolding total_weight_def dist_at_def .

lemma adjacent_dir:
  assumes "adjacent x c"
  shows "\<exists>d < 4. c = (fst x + dx ! d, snd x + dy ! d)"
proof -
  from assms have "(fst c = fst x - 1 \<and> snd c = snd x) \<or> (fst c = fst x \<and> snd c = snd x + 1) \<or>
      (fst c = fst x + 1 \<and> snd c = snd x) \<or> (fst c = fst x \<and> snd c = snd x - 1)"
    unfolding adjacent_def by arith
  then consider "c = (fst x + dx ! 0, snd x + dy ! 0)" | "c = (fst x + dx ! 1, snd x + dy ! 1)"
    | "c = (fst x + dx ! 2, snd x + dy ! 2)" | "c = (fst x + dx ! 3, snd x + dy ! 3)"
    by (auto simp: dx_def dy_def prod_eq_iff)
  then show ?thesis
  proof cases
    case 1 then show ?thesis by (intro exI [of _ 0]) simp
  next
    case 2 then show ?thesis by (intro exI [of _ 1]) simp
  next
    case 3 then show ?thesis by (intro exI [of _ 2]) simp
  next
    case 4 then show ?thesis by (intro exI [of _ 3]) simp
  qed
qed

lemma dir_adjacent:
  assumes "d < 4"
  shows "adjacent x (fst x + dx ! d, snd x + dy ! d)"
proof -
  from assms have "d = 0 \<or> d = 1 \<or> d = 2 \<or> d = 3" by arith
  then show ?thesis by (auto simp: adjacent_def dx_def dy_def)
qed

lemma adjacent_sym: "adjacent a b \<Longrightarrow> adjacent b a"
  by (simp add: adjacent_def abs_minus_commute)

lemma steps_inside: "steps G n a b \<Longrightarrow> inside G b"
  by (cases n) auto

lemma bfs_invD:
  assumes "bfs_inv G g lu x D (dm, q)"
  shows "well_formed G dm"
    and "\<And>c. inside G c \<Longrightarrow> dist_at dm c = DBL_MAX \<or>
        (\<exists>n s. dist_at dm c = real n \<and> n < reached_count dm \<and> source G g lu s \<and> steps G n s c)"
    and "\<And>s. source G g lu s \<Longrightarrow> dist_at dm s = 0"
    and "\<And>c c'. inside G c \<Longrightarrow> inside G c' \<Longrightarrow> adjacent c c' \<Longrightarrow> dist_at dm c \<noteq> DBL_MAX \<Longrightarrow>
        dist_at dm c' \<le> dist_at dm c + 1 \<or> c \<in> set q \<or>
        (c = x \<and> (\<exists>d \<in> D. c' = (fst x + dx ! d, snd x + dy ! d)))"
    and "\<And>c. c \<in> set q \<Longrightarrow> inside G c \<and> dist_at dm c \<noteq> DBL_MAX"
    and "D \<noteq> {} \<Longrightarrow> inside G x \<and> dist_at dm x \<noteq> DBL_MAX"
    and "D \<subseteq> {..<4}"
  using assms unfolding bfs_inv_def fst_conv snd_conv by blast+

lemma bfs_invI:
  assumes "well_formed G dm"
    and "\<And>c. inside G c \<Longrightarrow> dist_at dm c = DBL_MAX \<or>
        (\<exists>n s. dist_at dm c = real n \<and> n < reached_count dm \<and> source G g lu s \<and> steps G n s c)"
    and "\<And>s. source G g lu s \<Longrightarrow> dist_at dm s = 0"
    and "\<And>c c'. inside G c \<Longrightarrow> inside G c' \<Longrightarrow> adjacent c c' \<Longrightarrow> dist_at dm c \<noteq> DBL_MAX \<Longrightarrow>
        dist_at dm c' \<le> dist_at dm c + 1 \<or> c \<in> set q \<or>
        (c = x \<and> (\<exists>d \<in> D. c' = (fst x + dx ! d, snd x + dy ! d)))"
    and "\<And>c. c \<in> set q \<Longrightarrow> inside G c \<and> dist_at dm c \<noteq> DBL_MAX"
    and "D \<noteq> {} \<Longrightarrow> inside G x \<and> dist_at dm x \<noteq> DBL_MAX"
    and "D \<subseteq> {..<4}"
  shows "bfs_inv G g lu x D (dm, q)"
  unfolding bfs_inv_def fst_conv snd_conv using assms by blast

lemma reached_below_sentinel:
  assumes "well_formed G dm" "ROWS G * COLS G < 2 ^ 53" "n < reached_count dm"
  shows "real n + 1 < DBL_MAX" "real n \<noteq> DBL_MAX"
proof -
  from reached_count_le [OF assms(1)] assms(3) have "n \<le> ROWS G * COLS G" by simp
  from below_sentinel [OF assms(2) this] show "real n + 1 < DBL_MAX" "real n \<noteq> DBL_MAX"
    by simp_all
qed

lemma relax_keep:
  assumes inv: "bfs_inv G g lu x D (dm, q)" and d: "d \<in> D"
    and no: "\<not> (inside G (fst x + dx ! d, snd x + dy ! d) \<and>
               dist_at dm (fst x + dx ! d, snd x + dy ! d) > dist_at dm x + 1)"
  shows "relax G x d (dm, q) = (dm, q)" and "bfs_inv G g lu x (D - {d}) (dm, q)"
proof -
  note I = bfs_invD [OF inv]
  from no show "relax G x d (dm, q) = (dm, q)"
    by (auto simp: relax_def Let_def inside_def)
  show "bfs_inv G g lu x (D - {d}) (dm, q)"
  proof (rule bfs_invI)
    fix c c' assume c: "inside G c" "inside G c'" "adjacent c c'" "dist_at dm c \<noteq> DBL_MAX"
    from I(4) [OF c] no c(2)
    show "dist_at dm c' \<le> dist_at dm c + 1 \<or> c \<in> set q \<or>
        (c = x \<and> (\<exists>d' \<in> D - {d}. c' = (fst x + dx ! d', snd x + dy ! d')))"
      by (metis DiffI linorder_not_less singletonD)
  next
    from I(6) d show "D - {d} \<noteq> {} \<Longrightarrow> inside G x \<and> dist_at dm x \<noteq> DBL_MAX" by blast
    from I(7) show "D - {d} \<subseteq> {..<4}" by blast
  qed (use I in blast)+
qed

lemma relax_lower:
  assumes inv: "bfs_inv G g lu x D (dm, q)" and d: "d \<in> D"
    and small: "ROWS G * COLS G < 2 ^ 53"
    and n: "inside G (fst x + dx ! d, snd x + dy ! d)"
    and gt: "dist_at dm (fst x + dx ! d, snd x + dy ! d) > dist_at dm x + 1"
  shows "bfs_inv G g lu x (D - {d}) (relax G x d (dm, q))"
    and "total_weight G (fst (relax G x d (dm, q))) < total_weight G dm"
proof -
  note I = bfs_invD [OF inv]
  let ?n = "(fst x + dx ! d, snd x + dy ! d)"
  from d I(7) have d4: "d < 4" by auto
  from d I(6) have x: "inside G x" "dist_at dm x \<noteq> DBL_MAX" by auto
  with I(2) obtain k s where k: "dist_at dm x = real k" "k < reached_count dm"
    "source G g lu s" "steps G k s x" by blast
  define dm' where "dm' = set_cell dm (nat (fst ?n)) (nat (snd ?n)) (real (Suc k))"
  have res: "relax G x d (dm, q) = (dm', q @ [?n])"
    using n gt k(1) by (simp add: relax_def Let_def inside_def dm'_def add.commute)
  have adj: "adjacent x ?n" by (rule dir_adjacent [OF d4])
  note lim = reached_below_sentinel [OF I(1) small]
  from lim(1) [OF k(2)] have v: "real (Suc k) \<noteq> DBL_MAX" by simp
  have dist': "dist_at dm' c = (if c = ?n then real (Suc k) else dist_at dm c)" if "inside G c" for c
    unfolding dm'_def using dist_at_set_cell [OF I(1) n that] .
  have cnt': "reached_count dm'
      = (if dist_at dm ?n = DBL_MAX then Suc (reached_count dm) else reached_count dm)"
    unfolding dm'_def by (rule reached_count_set_cell [OF I(1) n v])
  then have mono: "reached_count dm \<le> reached_count dm'" by simp
  have old: "dist_at dm ?n = DBL_MAX \<or> (\<exists>m. dist_at dm ?n = real m \<and> Suc k < m \<and> m < reached_count dm)"
  proof -
    from I(2) [OF n] gt k(1) show ?thesis by (auto simp: add.commute)
  qed
  have new: "Suc k < reached_count dm'"
    using old k(2) cnt' by auto
  have lower: "real (Suc k) < dist_at dm ?n" using gt k(1) by simp
  have xn: "x \<noteq> ?n" using lower k(1) by auto
  have wf': "well_formed G dm'" unfolding dm'_def by (rule well_formed_set_cell [OF I(1)])
  have inv': "bfs_inv G g lu x (D - {d}) (dm', q @ [?n])"
  proof (rule bfs_invI)
    show "well_formed G dm'" by (rule wf')
  next
    fix c assume c: "inside G c"
    show "dist_at dm' c = DBL_MAX \<or>
        (\<exists>n s. dist_at dm' c = real n \<and> n < reached_count dm' \<and> source G g lu s \<and> steps G n s c)"
    proof (cases "c = ?n")
      case True
      from k(4) adj n have "steps G (Suc k) s ?n" by (simp only: steps.simps) blast
      then have "steps G (Suc k) s c" using True by simp
      moreover have "dist_at dm' c = real (Suc k)" using True dist' [OF c] by simp
      ultimately show ?thesis using new k(3) by blast
    next
      case False
      with dist' [OF c] I(2) [OF c] mono show ?thesis
        by (metis less_le_trans)
    qed
  next
    fix s' assume s': "source G g lu s'"
    then have ins: "inside G s'" by (simp add: source_def)
    from I(3) [OF s'] lower have "s' \<noteq> ?n" by auto
    with dist' [OF ins] I(3) [OF s'] show "dist_at dm' s' = 0" by simp
  next
    fix c c' assume c: "inside G c" "inside G c'" "adjacent c c'" "dist_at dm' c \<noteq> DBL_MAX"
    show "dist_at dm' c' \<le> dist_at dm' c + 1 \<or> c \<in> set (q @ [?n]) \<or>
        (c = x \<and> (\<exists>d' \<in> D - {d}. c' = (fst x + dx ! d', snd x + dy ! d')))"
    proof (cases "c = ?n")
      case True
      then show ?thesis by simp
    next
      case False
      with dist' [OF c(1)] c(4) have dc: "dist_at dm' c = dist_at dm c" "dist_at dm c \<noteq> DBL_MAX"
        by simp_all
      have le: "dist_at dm' c' \<le> dist_at dm c'"
        using dist' [OF c(2)] lower by auto
      from I(4) [OF c(1,2,3) dc(2)]
      consider "dist_at dm c' \<le> dist_at dm c + 1" | "c \<in> set q"
        | d' where "c = x" "d' \<in> D" "c' = (fst x + dx ! d', snd x + dy ! d')" by blast
      then show ?thesis
      proof cases
        case 1
        with le dc(1) show ?thesis by simp
      next
        case 2
        then show ?thesis by simp
      next
        case 3
        show ?thesis
        proof (cases "d' = d")
          case True
          with 3 dist' [OF c(2)] dc(1) k(1) show ?thesis by simp
        next
          case False
          with 3 show ?thesis by blast
        qed
      qed
    qed
  next
    fix c assume "c \<in> set (q @ [?n])"
    then have "c \<in> set q \<or> c = ?n" by auto
    then show "inside G c \<and> dist_at dm' c \<noteq> DBL_MAX"
    proof
      assume "c \<in> set q"
      from I(5) [OF this] dist' [of c] v show ?thesis by auto
    next
      assume "c = ?n"
      with n dist' [OF n] v show ?thesis by simp
    qed
  next
    from x xn dist' [OF x(1)] show "D - {d} \<noteq> {} \<Longrightarrow> inside G x \<and> dist_at dm' x \<noteq> DBL_MAX"
      by simp
    from I(7) show "D - {d} \<subseteq> {..<4}" by blast
  qed
  with res show "bfs_inv G g lu x (D - {d}) (relax G x d (dm, q))" by simp
  have "weight G (real (Suc k)) < weight G (dist_at dm ?n)"
  proof -
    have a: "weight G (real (Suc k)) = Suc k" by (rule weight_reached [OF v])
    from old show ?thesis
    proof
      assume "dist_at dm ?n = DBL_MAX"
      moreover from k(2) reached_count_le [OF I(1)] have "k < ROWS G * COLS G" by simp
      ultimately show ?thesis using a by (simp add: weight_def)
    next
      assume "\<exists>m. dist_at dm ?n = real m \<and> Suc k < m \<and> m < reached_count dm"
      then obtain m where m: "dist_at dm ?n = real m" "Suc k < m" "m < reached_count dm" by blast
      from lim(2) [OF m(3)] have "weight G (real m) = m" by (rule weight_reached)
      with a m show ?thesis by simp
    qed
  qed
  moreover have "total_weight G dm' + weight G (dist_at dm ?n)
      = total_weight G dm + weight G (real (Suc k))"
    unfolding dm'_def by (rule total_weight_set_cell [OF I(1) n])
  ultimately have "total_weight G dm' < total_weight G dm" by simp
  with res show "total_weight G (fst (relax G x d (dm, q))) < total_weight G dm" by simp
qed

lemma relax_step:
  assumes inv: "bfs_inv G g lu x D dq" and d: "d \<in> D" and small: "ROWS G * COLS G < 2 ^ 53"
  shows "bfs_inv G g lu x (D - {d}) (relax G x d dq) \<and>
         (relax G x d dq = dq \<or> total_weight G (fst (relax G x d dq)) < total_weight G (fst dq))"
proof -
  obtain dm q where dq: "dq = (dm, q)" by (cases dq)
  show ?thesis
  proof (cases "inside G (fst x + dx ! d, snd x + dy ! d) \<and>
               dist_at dm (fst x + dx ! d, snd x + dy ! d) > dist_at dm x + 1")
    case True
    with relax_lower [OF inv [unfolded dq] d small] show ?thesis unfolding dq by simp
  next
    case False
    with relax_keep [OF inv [unfolded dq] d] show ?thesis unfolding dq by simp
  qed
qed

subsection \<open>The search: each relaxation keeps the invariant and the search ends\<close>

lemma fold_relax:
  assumes "distinct ds" "bfs_inv G g lu x (set ds) dq" "ROWS G * COLS G < 2 ^ 53"
  shows "bfs_inv G g lu x {} (fold (relax G x) ds dq) \<and>
         (fold (relax G x) ds dq = dq \<or>
          total_weight G (fst (fold (relax G x) ds dq)) < total_weight G (fst dq))"
  using assms
proof (induction ds arbitrary: dq)
  case Nil
  then show ?case by simp
next
  case (Cons d ds)
  from Cons.prems(1) have eq: "set (d # ds) - {d} = set ds" by auto
  have "d \<in> set (d # ds)" by simp
  from relax_step [OF Cons.prems(2) this Cons.prems(3)] eq
  have a: "bfs_inv G g lu x (set ds) (relax G x d dq)"
    and b: "relax G x d dq = dq \<or> total_weight G (fst (relax G x d dq)) < total_weight G (fst dq)"
    by simp_all
  from Cons.prems(1) have "distinct ds" by simp
  from Cons.IH [OF this a Cons.prems(3)]
  have c: "bfs_inv G g lu x {} (fold (relax G x) ds (relax G x d dq))"
    and e: "fold (relax G x) ds (relax G x d dq) = relax G x d dq \<or>
        total_weight G (fst (fold (relax G x) ds (relax G x d dq)))
          < total_weight G (fst (relax G x d dq))"
    by simp_all
  from b e have "fold (relax G x) ds (relax G x d dq) = dq \<or>
        total_weight G (fst (fold (relax G x) ds (relax G x d dq))) < total_weight G (fst dq)"
    by (elim disjE) auto
  with c show ?case by simp
qed

lemma bfs_inv_pop:
  assumes "bfs_inv G g lu x0 {} (dm, c # q)"
  shows "bfs_inv G g lu c (set [0..<4]) (dm, q)"
proof -
  note I = bfs_invD [OF assms]
  show ?thesis
  proof (rule bfs_invI)
    fix a a' assume a: "inside G a" "inside G a'" "adjacent a a'" "dist_at dm a \<noteq> DBL_MAX"
    from I(4) [OF a] have "dist_at dm a' \<le> dist_at dm a + 1 \<or> a \<in> set q \<or> a = c" by auto
    moreover have "\<exists>d \<in> set [0..<4]. a' = (fst c + dx ! d, snd c + dy ! d)" if "a = c"
      using adjacent_dir [of c a'] a(3) that by auto
    ultimately show "dist_at dm a' \<le> dist_at dm a + 1 \<or> a \<in> set q \<or>
        (a = c \<and> (\<exists>d \<in> set [0..<4]. a' = (fst c + dx ! d, snd c + dy ! d)))"
      by blast
  next
    from I(5) [of c] show "set [0..<4] \<noteq> {} \<Longrightarrow> inside G c \<and> dist_at dm c \<noteq> DBL_MAX" by simp
  next
    show "set [0..<4] \<subseteq> {..<4}" by auto
  next
    fix a assume "a \<in> set q"
    with I(5) [of a] show "inside G a \<and> dist_at dm a \<noteq> DBL_MAX" by simp
  qed (use I in blast)+
qed

lemma bfs_inv_any_cell: "bfs_inv G g lu x {} dq \<Longrightarrow> bfs_inv G g lu y {} dq"
  by (simp add: bfs_inv_def)

lemma bfs_loop_total:
  assumes small: "ROWS G * COLS G < 2 ^ 53" and inv: "bfs_inv G g lu x {} dq"
  shows "\<exists>dm. bfs_loop G dq = Some dm \<and> bfs_inv G g lu x {} (dm, [])"
  using inv
proof (induction dq arbitrary: x
    rule: wf_induct_rule [OF wf_measures [of "[\<lambda>dq. total_weight G (fst dq), \<lambda>dq. length (snd dq)]"]])
  case (1 dq)
  obtain dm q where dq: "dq = (dm, q)" by (cases dq)
  show ?case
  proof (cases q)
    case Nil
    have "bfs_loop G dq = Some dm" unfolding dq Nil by (subst bfs_loop.simps) simp
    with 1(2) dq Nil show ?thesis by simp
  next
    case (Cons c q')
    let ?dq' = "fold (relax G c) [0..<4] (dm, q')"
    from 1(2) have "bfs_inv G g lu c (set [0..<4]) (dm, q')" unfolding dq Cons by (rule bfs_inv_pop)
    from fold_relax [OF _ this small]
    have a: "bfs_inv G g lu c {} ?dq'"
      and b: "?dq' = (dm, q') \<or> total_weight G (fst ?dq') < total_weight G dm" by simp_all
    from b have "(?dq', dq) \<in> measures [\<lambda>dq. total_weight G (fst dq), \<lambda>dq. length (snd dq)]"
      unfolding dq Cons by auto
    from 1(1) [OF this a] obtain r where r: "bfs_loop G ?dq' = Some r" "bfs_inv G g lu c {} (r, [])"
      by blast
    have "bfs_loop G dq = bfs_loop G ?dq'" unfolding dq Cons by (subst bfs_loop.simps) simp
    with r bfs_inv_any_cell [OF r(2)] show ?thesis by simp
  qed
qed

subsection \<open>The seeding loops establish the invariant\<close>

lemma seed_cell_inv:
  assumes inv: "seed_inv G g lu i j dq" and i: "i < ROWS G" and j: "j < COLS G"
  shows "seed_inv G g lu i (Suc j) (seed_cell g lu i j dq)"
proof -
  let ?n = "(int i, int j)"
  obtain dm q where dq: "dq = (dm, q)" by (cases dq)
  from inv have wf: "well_formed G dm"
    and dist: "\<And>c. inside G c \<Longrightarrow>
        dist_at dm c = (if seeded i j c \<and> label_at g c = lu then 0 else DBL_MAX)"
    and queue: "\<And>c. c \<in> set q \<longleftrightarrow> inside G c \<and> seeded i j c \<and> label_at g c = lu"
    unfolding seed_inv_def dq fst_conv snd_conv by blast+
  from i j have n: "inside G ?n" by (simp add: inside_def)
  have lab: "label_at g ?n = g ! i ! j" by (simp add: label_at_def)
  have nxt: "seeded i (Suc j) c \<longleftrightarrow> seeded i j c \<or> c = ?n" if "inside G c" for c
    using inside_eq_iff [OF that n] by (auto simp: seeded_def)
  have notyet: "\<not> seeded i j ?n" by (simp add: seeded_def)
  show ?thesis
  proof (cases "g ! i ! j = lu")
    case True
    then have res: "seed_cell g lu i j dq = (set_cell dm i j 0, q @ [?n])"
      by (simp add: seed_cell_def dq)
    have d': "dist_at (set_cell dm i j 0) c = (if c = ?n then 0 else dist_at dm c)"
      if "inside G c" for c
      using dist_at_set_cell [OF wf n that, of 0] by simp
    show ?thesis unfolding res seed_inv_def fst_conv snd_conv
    proof (intro conjI allI impI)
      show "well_formed G (set_cell dm i j 0)" by (rule well_formed_set_cell [OF wf])
    next
      fix c assume c: "inside G c"
      from d' [OF c] dist [OF c] nxt [OF c] True lab
      show "dist_at (set_cell dm i j 0) c
          = (if seeded i (Suc j) c \<and> label_at g c = lu then 0 else DBL_MAX)"
        by auto
    next
      fix c
      from queue [of c] nxt [of c] n True lab
      show "c \<in> set (q @ [?n]) \<longleftrightarrow> inside G c \<and> seeded i (Suc j) c \<and> label_at g c = lu"
        by auto
    qed
  next
    case False
    then have res: "seed_cell g lu i j dq = (dm, q)" by (simp add: seed_cell_def dq)
    show ?thesis unfolding res seed_inv_def fst_conv snd_conv
    proof (intro conjI allI impI)
      show "well_formed G dm" by (rule wf)
    next
      fix c assume c: "inside G c"
      from dist [OF c] nxt [OF c] False lab
      show "dist_at dm c = (if seeded i (Suc j) c \<and> label_at g c = lu then 0 else DBL_MAX)"
        by auto
    next
      fix c
      from queue [of c] nxt [of c] False lab
      show "c \<in> set q \<longleftrightarrow> inside G c \<and> seeded i (Suc j) c \<and> label_at g c = lu"
        by auto
    qed
  qed
qed

lemma seed_row_inv:
  assumes "n \<le> COLS G" "i < ROWS G" "seed_inv G g lu i 0 dq"
  shows "seed_inv G g lu i n (fold (seed_cell g lu i) [0..<n] dq)"
  using assms(1)
proof (induction n)
  case 0
  with assms(3) show ?case by simp
next
  case (Suc n)
  then have "seed_inv G g lu i n (fold (seed_cell g lu i) [0..<n] dq)" "n < COLS G" by simp_all
  from seed_cell_inv [OF this(1) assms(2) this(2)] show ?case by simp
qed

lemma seed_next_row:
  assumes "seed_inv G g lu i (COLS G) dq"
  shows "seed_inv G g lu (Suc i) 0 dq"
proof -
  have "seeded (Suc i) 0 c \<longleftrightarrow> seeded i (COLS G) c" if "inside G c" for c
    using inside_nat [OF that] by (auto simp: seeded_def)
  with assms show ?thesis unfolding seed_inv_def by auto
qed

lemma seed_rows_inv:
  assumes "m \<le> ROWS G" "seed_inv G g lu 0 0 dq"
  shows "seed_inv G g lu m 0 (fold (\<lambda>i. fold (seed_cell g lu i) [0..<COLS G]) [0..<m] dq)"
  using assms(1)
proof (induction m)
  case 0
  with assms(2) show ?case by simp
next
  case (Suc m)
  then have a: "seed_inv G g lu m 0 (fold (\<lambda>i. fold (seed_cell g lu i) [0..<COLS G]) [0..<m] dq)"
    and m: "m < ROWS G" by simp_all
  from seed_next_row [OF seed_row_inv [OF order_refl m a]] show ?case by simp
qed

lemma seed_start: "seed_inv G g lu 0 0 (replicate (ROWS G) (replicate (COLS G) DBL_MAX), [])"
proof -
  have "dist_at (replicate (ROWS G) (replicate (COLS G) DBL_MAX)) c = DBL_MAX" if "inside G c" for c
    using inside_nat [OF that] by (simp add: dist_at_def)
  then show ?thesis by (simp add: seed_inv_def well_formed_def seeded_def)
qed

lemma seed_queue_inv: "bfs_inv G g lu x {} (seed_queue G g lu)"
proof -
  obtain dm q where dq: "seed_queue G g lu = (dm, q)" by (cases "seed_queue G g lu")
  from seed_rows_inv [OF order_refl seed_start, of G g lu]
  have "seed_inv G g lu (ROWS G) 0 (dm, q)" unfolding dq [symmetric] seed_queue_def .
  moreover have "seeded (ROWS G) 0 c" if "inside G c" for c
    using inside_nat [OF that] by (simp add: seeded_def)
  ultimately have wf: "well_formed G dm"
    and dist: "\<And>c. inside G c \<Longrightarrow> dist_at dm c = (if label_at g c = lu then 0 else DBL_MAX)"
    and queue: "\<And>c. c \<in> set q \<longleftrightarrow> inside G c \<and> label_at g c = lu"
    unfolding seed_inv_def fst_conv snd_conv by auto
  have pos: "(0::real) \<noteq> DBL_MAX" by (simp add: DBL_MAX_def)
  have "bfs_inv G g lu x {} (dm, q)"
  proof (rule bfs_invI)
    show "well_formed G dm" by (rule wf)
  next
    fix c assume c: "inside G c"
    show "dist_at dm c = DBL_MAX \<or>
        (\<exists>n s. dist_at dm c = real n \<and> n < reached_count dm \<and> source G g lu s \<and> steps G n s c)"
    proof (cases "label_at g c = lu")
      case True
      with dist [OF c] have z: "dist_at dm c = real 0" by simp
      with pos have "dist_at dm c \<noteq> DBL_MAX" by simp
      from reached_count_pos [OF wf c this] have "0 < reached_count dm" .
      moreover from c True have "source G g lu c" by (simp add: source_def)
      moreover from c have "steps G 0 c c" by simp
      ultimately show ?thesis using z by blast
    next
      case False
      with dist [OF c] show ?thesis by simp
    qed
  next
    fix s assume "source G g lu s"
    then show "dist_at dm s = 0" using dist [of s] by (simp add: source_def)
  next
    fix c c' assume c: "inside G c" "inside G c'" "adjacent c c'" "dist_at dm c \<noteq> DBL_MAX"
    from dist [OF c(1)] c(4) have "label_at g c = lu" by (auto split: if_splits)
    with queue [of c] c(1) have "c \<in> set q" by simp
    then show "dist_at dm c' \<le> dist_at dm c + 1 \<or> c \<in> set q \<or>
        (c = x \<and> (\<exists>d \<in> {}. c' = (fst x + dx ! d, snd x + dy ! d)))" by simp
  next
    fix c assume "c \<in> set q"
    with queue [of c] have "inside G c" "label_at g c = lu" by simp_all
    with dist [of c] pos show "inside G c \<and> dist_at dm c \<noteq> DBL_MAX" by simp
  qed simp_all
  then show ?thesis by (simp add: dq)
qed

subsection \<open>Walks on the grid\<close>

lemma steps_trans: "steps G n a b \<Longrightarrow> steps G m b c \<Longrightarrow> steps G (n + m) a c"
proof (induction m arbitrary: c)
  case 0
  then show ?case by simp
next
  case (Suc m)
  from Suc.prems(2) obtain c0 where c0: "steps G m b c0" "adjacent c0 c" "inside G c"
    by (auto simp only: steps.simps)
  from Suc.IH [OF Suc.prems(1) c0(1)] c0(2,3) have "steps G (Suc (n + m)) a c"
    by (simp only: steps.simps) blast
  then show ?case by simp
qed

lemma steps_one: "inside G a \<Longrightarrow> inside G b \<Longrightarrow> adjacent a b \<Longrightarrow> steps G (Suc 0) a b"
  by (simp only: steps.simps) blast

lemma steps_sym: "steps G n a b \<Longrightarrow> steps G n b a"
proof (induction n arbitrary: b)
  case 0
  then show ?case by auto
next
  case (Suc n)
  from Suc.prems obtain c where c: "steps G n a c" "adjacent c b" "inside G b"
    by (auto simp only: steps.simps)
  from steps_one [OF c(3) steps_inside [OF c(1)] adjacent_sym [OF c(2)]]
  have "steps G (Suc 0) b c" .
  from steps_trans [OF this Suc.IH [OF c(1)]] show ?case by simp
qed

lemma reach_col: "inside G (0, int j) \<Longrightarrow> \<exists>n. steps G n (0, 0) (0, int j)"
proof (induction j)
  case 0
  then have "steps G 0 (0, 0) (0, int 0)" by simp
  then show ?case by blast
next
  case (Suc j)
  then have ins: "inside G (0, int j)" by (simp add: inside_def)
  from Suc.IH [OF this] obtain n where n: "steps G n (0, 0) (0, int j)" by blast
  have "adjacent (0, int j) (0, int (Suc j))" by (simp add: adjacent_def)
  with n Suc.prems have "steps G (Suc n) (0, 0) (0, int (Suc j))"
    by (simp only: steps.simps) blast
  then show ?case by blast
qed

lemma reach_cell: "inside G (int i, int j) \<Longrightarrow> \<exists>n. steps G n (0, 0) (int i, int j)"
proof (induction i)
  case 0
  then show ?case using reach_col [of G j] by simp
next
  case (Suc i)
  then have ins: "inside G (int i, int j)" by (simp add: inside_def)
  from Suc.IH [OF this] obtain n where n: "steps G n (0, 0) (int i, int j)" by blast
  have "adjacent (int i, int j) (int (Suc i), int j)" by (simp add: adjacent_def)
  with n Suc.prems have "steps G (Suc n) (0, 0) (int (Suc i), int j)"
    by (simp only: steps.simps) blast
  then show ?case by blast
qed

lemma reach_origin:
  assumes "inside G c"
  shows "\<exists>n. steps G n (0, 0) c"
proof -
  from assms have "(int (nat (fst c)), int (nat (snd c))) = c" by (simp add: inside_def)
  with reach_cell [of G "nat (fst c)" "nat (snd c)"] assms show ?thesis by simp
qed

lemma grid_connected:
  assumes "inside G a" "inside G b"
  shows "\<exists>n. steps G n a b"
proof -
  from reach_origin [OF assms(1)] obtain n where "steps G n (0, 0) a" by blast
  then have "steps G n a (0, 0)" by (rule steps_sym)
  moreover from reach_origin [OF assms(2)] obtain m where "steps G m (0, 0) b" by blast
  ultimately have "steps G (n + m) a b" by (rule steps_trans)
  then show ?thesis by blast
qed

subsection \<open>At the end of the search the map holds the least numbers of steps\<close>

lemma relaxed_upper:
  assumes small: "ROWS G * COLS G < 2 ^ 53" and inv: "bfs_inv G g lu x {} (dm, [])"
    and s: "source G g lu s" and w: "steps G n s c"
  shows "dist_at dm c \<noteq> DBL_MAX \<and> dist_at dm c \<le> real n"
  using w
proof (induction n arbitrary: c)
  case 0
  note I = bfs_invD [OF inv]
  from 0 have "c = s" by simp
  with I(3) [OF s] show ?case by (simp add: DBL_MAX_def)
next
  case (Suc n)
  note I = bfs_invD [OF inv]
  from Suc.prems obtain c0 where c0: "steps G n s c0" "adjacent c0 c" "inside G c"
    by (auto simp only: steps.simps)
  from Suc.IH [OF c0(1)] have le: "dist_at dm c0 \<noteq> DBL_MAX" "dist_at dm c0 \<le> real n" by simp_all
  have ins: "inside G c0" by (rule steps_inside [OF c0(1)])
  from I(2) [OF ins] le(1) obtain m where m: "dist_at dm c0 = real m" "m < reached_count dm"
    by blast
  from I(4) [OF ins c0(3) c0(2) le(1)] have "dist_at dm c \<le> dist_at dm c0 + 1" by simp
  with reached_below_sentinel(1) [OF I(1) small m(2)] m(1) le(2) show ?case by simp
qed

lemma bfs_inv_final:
  assumes small: "ROWS G * COLS G < 2 ^ 53" and inv: "bfs_inv G g lu x {} (dm, [])"
  shows "distance_field_of G g lu dm"
proof -
  note I = bfs_invD [OF inv]
  have "(if \<exists>s. source G g lu s
         then \<exists>d. dist_at dm c = real d \<and> least_steps G g lu c d
         else dist_at dm c = DBL_MAX) \<and>
        (label_at g c = lu \<longrightarrow> dist_at dm c = 0)" if c: "inside G c" for c
  proof (intro conjI impI)
    assume "label_at g c = lu"
    with c have "source G g lu c" by (simp add: source_def)
    then show "dist_at dm c = 0" by (rule I(3))
  next
    show "if \<exists>s. source G g lu s
         then \<exists>d. dist_at dm c = real d \<and> least_steps G g lu c d
         else dist_at dm c = DBL_MAX"
    proof (cases "\<exists>s. source G g lu s")
      case False
      with I(2) [OF c] show ?thesis by auto
    next
      case True
      then obtain s where s: "source G g lu s" by blast
      then have "inside G s" by (simp add: source_def)
      from grid_connected [OF this c] obtain n where "steps G n s c" by blast
      from relaxed_upper [OF small inv s this] have "dist_at dm c \<noteq> DBL_MAX" by simp
      with I(2) [OF c] obtain d s' where d: "dist_at dm c = real d" "source G g lu s'"
        "steps G d s' c" by blast
      have "d \<le> m" if "source G g lu t" "steps G m t c" for t m
        using relaxed_upper [OF small inv that] d(1) by simp
      with d have "least_steps G g lu c d" unfolding least_steps_def by blast
      with d(1) True show ?thesis by auto
    qed
  qed
  with I(1) show ?thesis unfolding distance_field_of_def by blast
qed

lemma distance_map_of_total:
  assumes "ROWS G * COLS G < 2 ^ 53"
  shows "\<exists>dm. distance_map_of G g lu = Some dm \<and> distance_field_of G g lu dm"
proof -
  from bfs_loop_total [OF assms seed_queue_inv [of G g lu "(0, 0)"]]
  obtain dm where "bfs_loop G (seed_queue G g lu) = Some dm" "bfs_inv G g lu (0, 0) {} (dm, [])"
    by blast
  with bfs_inv_final [OF assms this(2)] show ?thesis by (simp add: distance_map_of_def)
qed

lemma compute_maps_total:
  assumes "\<And>lu. lu \<in> set lus \<Longrightarrow> distance_map_of G g lu \<noteq> None"
  shows "\<exists>dms. compute_maps G g lus acc = Some dms \<and>
           (\<forall>lu. dms lu = (if lu \<in> set lus then distance_map_of G g lu else acc lu))"
  using assms
proof (induction lus arbitrary: acc)
  case Nil
  then show ?case by simp
next
  case (Cons a lus)
  from Cons.prems [of a] obtain dm where dm: "distance_map_of G g a = Some dm" by auto
  have "\<exists>dms. compute_maps G g lus (acc(a \<mapsto> dm)) = Some dms \<and>
      (\<forall>lu. dms lu = (if lu \<in> set lus then distance_map_of G g lu else (acc(a \<mapsto> dm)) lu))"
    by (rule Cons.IH) (simp add: Cons.prems)
  then obtain dms where dms: "compute_maps G g lus (acc(a \<mapsto> dm)) = Some dms"
    "\<And>lu. dms lu = (if lu \<in> set lus then distance_map_of G g lu else (acc(a \<mapsto> dm)) lu)"
    by blast
  from dms(1) dm have "compute_maps G g (a # lus) acc = Some dms" by simp
  moreover have "dms lu = (if lu \<in> set (a # lus) then distance_map_of G g lu else acc lu)" for lu
    using dms(2) [of lu] dm by auto
  ultimately show ?case by blast
qed

text \<open>
  C2. On a grid of the declared dimensions the builder returns, and for every fixed-feature
  label the map it stores has the grid's dimensions and holds, at every position, the least
  number of 4-connected steps on the grid from a cell bearing the label (0 on such a cell)
  if the label occurs, and the sentinel \<open>DBL_MAX\<close> at every position if it does not. The
  dimensions are those of C++ \<open>int\<close>s, and the grid has fewer than \<open>2\<^sup>5\<^sup>3\<close> cells, so that
  every distance written is a whole number that a \<open>double\<close> holds exactly.
\<close>

theorem computeDistanceMaps_least_steps:
  assumes "well_formed G g" and "ROWS G < 2 ^ 31" and "COLS G < 2 ^ 31"
    and "ROWS G * COLS G < 2 ^ 53"
  shows "\<exists>distanceMaps. computeDistanceMaps G g = Some distanceMaps \<and>
     (\<forall>landUseType \<in> set landUseTypes.
        \<exists>distanceMap. distanceMaps landUseType = Some distanceMap \<and>
          distance_field_of G g landUseType distanceMap)"
proof -
  have "distance_map_of G g lu \<noteq> None" for lu
    using distance_map_of_total [OF assms(4), of g lu] by auto
  from compute_maps_total [of landUseTypes G g Map.empty, OF this]
  obtain dms where dms: "computeDistanceMaps G g = Some dms"
    "\<And>lu. dms lu = (if lu \<in> set landUseTypes then distance_map_of G g lu else None)"
    unfolding computeDistanceMaps_def by auto
  have "\<exists>dm. dms lu = Some dm \<and> distance_field_of G g lu dm" if "lu \<in> set landUseTypes" for lu
    using distance_map_of_total [OF assms(4), of g lu] dms(2) [of lu] that by auto
  with dms(1) show ?thesis by blast
qed

subsection \<open>The grid of five rows and columns\<close>

lemma steps_manhattan: "steps G n a b \<Longrightarrow> \<bar>fst a - fst b\<bar> + \<bar>snd a - snd b\<bar> \<le> int n"
proof (induction n arbitrary: b)
  case 0
  then show ?case by simp
next
  case (Suc n)
  from Suc.prems obtain c where c: "steps G n a c" "adjacent c b"
    by (auto simp only: steps.simps)
  from Suc.IH [OF c(1)] c(2) show ?case by (simp add: adjacent_def)
qed

lemma square_well_formed: "well_formed square_globals square_grid"
  by (simp add: well_formed_def square_globals_def square_grid_def)

lemma square_small:
  "ROWS square_globals < 2 ^ 31" "COLS square_globals < 2 ^ 31"
  "ROWS square_globals * COLS square_globals < 2 ^ 53"
  by (simp_all add: square_globals_def)

lemma square_inside:
  "inside square_globals c \<longleftrightarrow> fst c \<in> {0, 1, 2, 3, 4} \<and> snd c \<in> {0, 1, 2, 3, 4}"
  by (auto simp: inside_def square_globals_def)

lemma square_source: "source square_globals square_grid TRANSPORT s \<longleftrightarrow> s = (2, 2)"
proof
  assume "s = (2, 2)"
  then show "source square_globals square_grid TRANSPORT s"
    by (simp add: source_def square_inside label_at_def square_grid_def)
next
  assume s: "source square_globals square_grid TRANSPORT s"
  obtain a b where ab: "s = (a, b)" by (cases s)
  from s have "a \<in> {0, 1, 2, 3, 4}" "b \<in> {0, 1, 2, 3, 4}"
    and lab: "square_grid ! nat a ! nat b = TRANSPORT"
    unfolding source_def square_inside ab label_at_def by simp_all
  then have "a = 2 \<and> b = 2"
    unfolding square_grid_def by (elim insertE emptyE) simp_all
  with ab show "s = (2, 2)" by simp
qed

lemma square_no_public: "\<not> source square_globals square_grid PUBLIC s"
proof
  assume s: "source square_globals square_grid PUBLIC s"
  obtain a b where ab: "s = (a, b)" by (cases s)
  from s have "a \<in> {0, 1, 2, 3, 4}" "b \<in> {0, 1, 2, 3, 4}"
    and lab: "square_grid ! nat a ! nat b = PUBLIC"
    unfolding source_def square_inside ab label_at_def by simp_all
  then show False
    unfolding square_grid_def by (elim insertE emptyE) simp_all
qed

lemma square_walk: "steps square_globals 4 (2, 2) (0, 0)"
proof -
  have a: "steps square_globals (Suc 0) (2, 2) (1, 2)"
    by (rule steps_one) (simp_all add: square_inside adjacent_def)
  have b: "steps square_globals (Suc 0) (1, 2) (0, 2)"
    by (rule steps_one) (simp_all add: square_inside adjacent_def)
  have c: "steps square_globals (Suc 0) (0, 2) (0, 1)"
    by (rule steps_one) (simp_all add: square_inside adjacent_def)
  have d: "steps square_globals (Suc 0) (0, 1) (0, 0)"
    by (rule steps_one) (simp_all add: square_inside adjacent_def)
  from steps_trans [OF steps_trans [OF steps_trans [OF a b] c] d]
  show ?thesis by (simp add: eval_nat_numeral)
qed

lemma square_field_transport:
  assumes "distance_field_of square_globals square_grid TRANSPORT dm"
  shows "dist_at dm (0, 0) = 4" "dist_at dm (2, 2) = 0"
proof -
  have src: "\<exists>s. source square_globals square_grid TRANSPORT s"
    using square_source by blast
  have ins: "inside square_globals (0, 0)" "inside square_globals (2, 2)"
    by (simp_all add: square_inside)
  from assms ins(2) show "dist_at dm (2, 2) = 0"
    unfolding distance_field_of_def by (simp add: label_at_def square_grid_def)
  from assms ins(1) src obtain d where d: "dist_at dm (0, 0) = real d"
    "least_steps square_globals square_grid TRANSPORT (0, 0) d"
    unfolding distance_field_of_def by metis
  from d(2) square_source have w: "steps square_globals d (2, 2) (0, 0)"
    unfolding least_steps_def by auto
  from steps_manhattan [OF w] have "4 \<le> d" by simp
  moreover from d(2) square_source square_walk have "d \<le> 4"
    unfolding least_steps_def by blast
  ultimately show "dist_at dm (0, 0) = 4" using d(1) by simp
qed

lemma square_field_public:
  assumes "distance_field_of square_globals square_grid PUBLIC dm"
  shows "dist_at dm (0, 0) = DBL_MAX"
proof -
  have "inside square_globals (0, 0)" by (simp add: square_inside)
  with assms square_no_public show ?thesis
    unfolding distance_field_of_def by auto
qed

text \<open>
  On the grid of five rows and columns with the transport cell at (2,2): the builder
  returns, the transport map holds 4 at (0,0) and 0 at (2,2), and the map of the label
  \<open>PUBLIC\<close>, which occurs nowhere, holds the sentinel at (0,0).
\<close>

theorem computeDistanceMaps_least_steps_witness:
  "\<exists>distanceMaps transport public.
     computeDistanceMaps square_globals square_grid = Some distanceMaps \<and>
     distanceMaps TRANSPORT = Some transport \<and>
     dist_at transport (0, 0) = 4 \<and> dist_at transport (2, 2) = 0 \<and>
     distanceMaps PUBLIC = Some public \<and> dist_at public (0, 0) = DBL_MAX"
proof -
  from computeDistanceMaps_least_steps [OF square_well_formed square_small]
  obtain dms where dms: "computeDistanceMaps square_globals square_grid = Some dms"
    "\<And>lu. lu \<in> set landUseTypes \<Longrightarrow>
      \<exists>dm. dms lu = Some dm \<and> distance_field_of square_globals square_grid lu dm"
    by blast
  from dms(2) [of TRANSPORT] obtain t where t: "dms TRANSPORT = Some t"
    "distance_field_of square_globals square_grid TRANSPORT t"
    by (auto simp: landUseTypes_def)
  from dms(2) [of PUBLIC] obtain p where p: "dms PUBLIC = Some p"
    "distance_field_of square_globals square_grid PUBLIC p"
    by (auto simp: landUseTypes_def)
  from dms(1) t(1) p(1) square_field_transport [OF t(2)] square_field_public [OF p(2)]
  show ?thesis by blast
qed

end
